(* ===== verification/BI_Prelude.thy ===== *)
theory BI_Prelude
  imports Main "HOL-Library.Word"
begin

text \<open>
  Shared vocabulary of the BillIntervals development: the C type \<open>short\<close> as a
  16-bit word, the collection of calendar facts the component theories extend,
  and generic lemmas on words, integers and function iteration that several
  components use.
\<close>

type_synonym short = "16 word"

named_theorems calendar_simps "evaluation rules for the calendar tables"

subsection \<open>16-bit wrap-around\<close>

lemma unat_short_succ:
  fixes y :: short
  assumes "y + 1 \<noteq> 0"
  shows "unat (y + 1) = Suc (unat y)"
  using unatSuc [of y] assms by (simp add: add.commute)

lemma short_succ_zero:
  fixes y :: short
  assumes "y + 1 = 0"
  shows "unat y = 65535"
proof -
  have "(unat y + 1) mod 65536 = unat (y + 1)"
    by (simp add: unat_word_ariths)
  with assms have "(unat y + 1) mod 65536 = 0"
    by simp
  moreover have "unat y < 65536"
    using unsigned_less [of y] by simp
  ultimately show ?thesis
  proof (cases "unat y + 1 < 65536")
    case True
    with \<open>(unat y + 1) mod 65536 = 0\<close> show ?thesis
      by simp
  qed simp
qed

lemma unat_short_bound:
  fixes y :: short
  shows "unat y < 65536"
  using unsigned_less [of y] by simp

lemma unat_short_eq_1:
  fixes y :: short
  shows "unat y = Suc 0 \<longleftrightarrow> y = 1"
  by (metis unat_1 word_unat_eq_iff One_nat_def)

lemma sint_mod4_eq_unat:
  fixes y :: short
  shows "sint y mod 4 = int (unat y mod 4)"
proof -
  have u: "uint y = sint y mod 65536"
    by (simp add: uint_sint take_bit_eq_mod)
  have "(sint y mod 65536) mod 4 = sint y mod 4"
    by (rule mod_mod_cancel) simp
  with u have "uint y mod 4 = sint y mod 4"
    by (simp only:)
  moreover have "int (unat y mod 4) = uint y mod 4"
    by (simp only: zmod_int uint_nat of_nat_numeral)
  ultimately show ?thesis
    by (simp only:)
qed

subsection \<open>Small integer ranges\<close>

lemma int_1_12_cases:
  fixes m :: int
  assumes "1 \<le> m" "m \<le> 12"
  shows "m = 1 \<or> m = 2 \<or> m = 3 \<or> m = 4 \<or> m = 5 \<or> m = 6 \<or> m = 7 \<or> m = 8 \<or>
    m = 9 \<or> m = 10 \<or> m = 11 \<or> m = 12"
  using assms by arith

subsection \<open>Distance on a cycle\<close>

text \<open>The number of steps \<open>k\<close> in 1..N from position \<open>db\<close> to position \<open>de\<close> on a cycle of
  length \<open>N\<close>, and that no earlier step lands on \<open>de\<close>.\<close>

lemma mod_distance:
  fixes N db de :: nat
  assumes "db < N" "de < N"
  defines "k \<equiv> (de + N - db - 1) mod N + 1"
  shows "0 < k" "k \<le> N" "(db + k) mod N = de" "0 < j \<Longrightarrow> j < k \<Longrightarrow> (db + j) mod N \<noteq> de"
proof -
  have k_cases: "(db < de \<and> k = de - db) \<or> (de \<le> db \<and> k = N + de - db)"
  proof (cases "db < de")
    case True
    then have "de + N - db - 1 = (de - db - 1) + N" by simp
    then have "(de + N - db - 1) mod N = (de - db - 1) mod N" by simp
    also have "\<dots> = de - db - 1" using assms(2) by simp
    finally show ?thesis using True by (simp add: k_def)
  next
    case False
    then have "de + N - db - 1 < N" using assms(1) by linarith
    then have "(de + N - db - 1) mod N = de + N - db - 1" by simp
    then show ?thesis using False assms(1) by (simp add: k_def)
  qed
  show "0 < k" by (simp add: k_def)
  show "k \<le> N" using k_cases assms by linarith
  show "(db + k) mod N = de"
  proof (cases "db < de")
    case True
    with k_cases have "db + k = de" by linarith
    with assms(2) show ?thesis by simp
  next
    case False
    with k_cases have "db + k = de + N" using assms(1) by linarith
    with assms(2) show ?thesis by simp
  qed
  show "(db + j) mod N \<noteq> de" if "0 < j" "j < k"
  proof (cases "db + j < N")
    case True
    then have "(db + j) mod N = db + j" by simp
    moreover have "db + j \<noteq> de" using k_cases that by linarith
    ultimately show ?thesis by simp
  next
    case False
    then have "db + j = (db + j - N) + N" by simp
    then have "(db + j) mod N = (db + j - N) mod N" by (metis mod_add_self2)
    also have "\<dots> = db + j - N"
    proof (rule mod_less)
      show "db + j - N < N" using False that k_cases assms(1,2) by linarith
    qed
    finally show ?thesis using False that k_cases assms by linarith
  qed
qed

subsection \<open>Iteration\<close>

lemma funpow_add_apply: "(f ^^ (m + n)) x = (f ^^ m) ((f ^^ n) x)"
  by (simp add: funpow_add)

lemma funpow_shift: "(f ^^ n) (f x) = f ((f ^^ n) x)"
  by (simp add: funpow_swap1)

subsection \<open>Decimal digits and 16-bit conversions\<close>

lemma decimal4: "1000 * ((y::nat) div 1000) + 100 * (y div 100 mod 10) + 10 * (y div 10 mod 10) + y mod 10 = y"
proof -
  have dm: "x = 10 * (x div 10) + x mod 10" for x :: nat
    by simp
  have a: "y div 100 div 10 = y div 1000" "y div 10 div 10 = y div 100"
    by (simp_all add: div_mult2_eq [symmetric])
  have "y div 100 = 10 * (y div 1000) + y div 100 mod 10"
    using dm [of "y div 100"] a by simp
  moreover have "y div 10 = 10 * (y div 100) + y div 10 mod 10"
    using dm [of "y div 10"] a by simp
  moreover have "y = 10 * (y div 10) + y mod 10"
    by (rule dm)
  ultimately show ?thesis by linarith
qed

lemma div10_digit: "(d::nat) < 10 \<Longrightarrow> (10 * x + d) div 10 = x" "(d::nat) < 10 \<Longrightarrow> (10 * x + d) mod 10 = d"
  by simp_all

lemma decimal4_digits:
  assumes "(a::nat) < 10" "b < 10" "c < 10" "d < 10"
  defines "y \<equiv> 1000 * a + 100 * b + 10 * c + d"
  shows "y div 1000 = a" "y div 100 mod 10 = b" "y div 10 mod 10 = c" "y mod 10 = d"
proof -
  have e1: "y = 10 * (100 * a + 10 * b + c) + d" by (simp add: y_def)
  have e2: "100 * a + 10 * b + c = 10 * (10 * a + b) + c" by simp
  have q1: "y div 10 = 100 * a + 10 * b + c" "y mod 10 = d"
    unfolding e1 using assms(4) by (simp_all only: div10_digit)
  have q2: "(100 * a + 10 * b + c) div 10 = 10 * a + b" "(100 * a + 10 * b + c) mod 10 = c"
    unfolding e2 using assms(3) by (simp_all only: div10_digit)
  have q3: "(10 * a + b) div 10 = a" "(10 * a + b) mod 10 = b"
    using assms(2) by (simp_all only: div10_digit)
  have a: "y div 10 div 10 = y div 100" "y div 100 div 10 = y div 1000"
    by (simp_all add: div_mult2_eq [symmetric])
  have d100: "y div 100 = 10 * a + b"
    using a(1) q1(1) q2(1) by simp
  show "y mod 10 = d" by (rule q1(2))
  show "y div 10 mod 10 = c" by (simp only: q1(1) q2(2))
  show "y div 100 mod 10 = b" by (simp only: d100 q3(2))
  show "y div 1000 = a" by (simp only: a(2) [symmetric] d100 q3(1))
qed

lemma int_decimal2: "10 * int (n div 10) + int (n mod 10) = int n"
  using arg_cong [OF div_mult_mod_eq [of n 10], of int]
  by (simp only: of_nat_add of_nat_mult of_nat_numeral mult.commute)

lemma unat_short_of_nat: "n < 65536 \<Longrightarrow> unat (word_of_nat n :: short) = n"
  by (simp add: unsigned_of_nat take_bit_nat_eq_self)

lemma sint_short_of_nat: "sint (word_of_nat n :: short) = (int n + 32768) mod 65536 - 32768"
  using int_word_sint [where 'a = 16 and x = "int n"] by simp

end
