(* ===== verification/Calendar.thy ===== *)
theory Calendar
  imports BI_Prelude
begin

text \<open>
  The calendar of BillIntervals.cpp: the date triple the program keeps in three
  \<open>short\<close> variables, the month-length table and the day advance of
  \<open>AdvanceDate\<close>. Month and day are \<open>int\<close>: the program only ever holds values
  in 0..100 in them, where \<open>short\<close> arithmetic is exact; the year is a 16-bit
  word, since \<open>++year\<close> wraps after 32767 and the day loop relies on it.
  The second half gives the calendar an abstract meaning, the day number of a
  date within the 65536-year cycle of 16-bit years, and proves that
  \<open>AdvanceDate\<close> is the successor on it.
\<close>

section \<open>Dates and AdvanceDate\<close>

record date =
  month :: int
  day :: int
  year :: short

definition length_tab :: "int list" where
  "length_tab = [31, 0, 31, 30, 31, 30, 31, 31, 30, 31, 30, 31]"

text \<open>\<open>length[month-1]\<close>: outside 1..12 the C array is read out of bounds.\<close>

definition month_length :: "int \<Rightarrow> int" where
  "month_length m = (if 1 \<le> m \<and> m \<le> 12 then length_tab ! nat (m - 1) else undefined)"

text \<open>\<open>((year-2000)%4) == 0\<close>, computed on the promoted \<open>int\<close>; a C remainder
  is zero exactly when the floor remainder is.\<close>

definition is_leap :: "short \<Rightarrow> bool" where
  "is_leap y \<longleftrightarrow> (sint y - 2000) mod 4 = 0"

definition advance_date :: "date \<Rightarrow> date" where
  "advance_date dt =
     (let d = day dt + 1 in
      if month dt = 2 then
        (if is_leap (year dt) then
           (if d > 29 then dt\<lparr>month := month dt + 1, day := 1\<rparr> else dt\<lparr>day := d\<rparr>)
         else
           (if d > 28 then dt\<lparr>month := month dt + 1, day := 1\<rparr> else dt\<lparr>day := d\<rparr>))
      else if d > month_length (month dt) then
        (if month dt + 1 > 12 then dt\<lparr>month := 1, day := 1, year := year dt + 1\<rparr>
         else dt\<lparr>month := month dt + 1, day := 1\<rparr>)
      else dt\<lparr>day := d\<rparr>)"

section \<open>The calendar's abstract meaning\<close>

text \<open>Days of month \<open>m\<close> as \<open>AdvanceDate\<close> counts them: February from the
  leap rule, the other months from the table.\<close>

definition month_days :: "bool \<Rightarrow> int \<Rightarrow> int" where
  "month_days lp m = (if m = 2 then (if lp then 29 else 28) else month_length m)"

definition valid_date :: "date \<Rightarrow> bool" where
  "valid_date dt \<longleftrightarrow>
     1 \<le> month dt \<and> month dt \<le> 12 \<and> 1 \<le> day dt \<and>
     day dt \<le> month_days (is_leap (year dt)) (month dt)"

definition days_before_year :: "nat \<Rightarrow> nat" where
  "days_before_year n = 365 * n + (n + 3) div 4"

definition days_before_month :: "bool \<Rightarrow> int \<Rightarrow> nat" where
  "days_before_month lp m = nat (sum_list (map (month_days lp) [1..m - 1]))"

definition day_number :: "date \<Rightarrow> nat" where
  "day_number dt =
     days_before_year (unat (year dt)) + days_before_month (is_leap (year dt)) (month dt)
     + nat (day dt - 1)"

definition cycle_days :: nat where
  "cycle_days = days_before_year 65536"

text \<open>A date \<open>AdvanceDate\<close> can be applied to: the month indexes the table.\<close>

definition date_in_range :: "date \<Rightarrow> bool" where
  "date_in_range dt \<longleftrightarrow> 1 \<le> month dt \<and> month dt \<le> 12 \<and> 0 \<le> day dt"

text \<open>Number of advances from \<open>b\<close> to the first later occurrence of \<open>e\<close>.\<close>

definition days_until :: "date \<Rightarrow> date \<Rightarrow> nat" where
  "days_until b e = (day_number e + cycle_days - day_number b - 1) mod cycle_days + 1"


section \<open>Lemmas\<close>


lemma is_leap_unat: "is_leap y \<longleftrightarrow> unat y mod 4 = 0"
proof -
  have "(sint y - 2000) mod 4 = 0 \<longleftrightarrow> sint y mod 4 = 0"
    by presburger
  then show ?thesis
    by (simp add: is_leap_def sint_mod4_eq_unat)
qed

lemma month_days_simps [calendar_simps]:
  "month_days lp 1 = 31" "month_days lp 2 = (if lp then 29 else 28)" "month_days lp 3 = 31"
  "month_days lp 4 = 30" "month_days lp 5 = 31" "month_days lp 6 = 30" "month_days lp 7 = 31"
  "month_days lp 8 = 31" "month_days lp 9 = 30" "month_days lp 10 = 31" "month_days lp 11 = 30"
  "month_days lp 12 = 31"
  by (simp_all add: month_days_def month_length_def length_tab_def)

lemma month_length_simps [calendar_simps]:
  "month_length 1 = 31" "month_length 2 = 0" "month_length 3 = 31" "month_length 4 = 30"
  "month_length 5 = 31" "month_length 6 = 30" "month_length 7 = 31" "month_length 8 = 31"
  "month_length 9 = 30" "month_length 10 = 31" "month_length 11 = 30" "month_length 12 = 31"
  by (simp_all add: month_length_def length_tab_def)

lemma month_days_pos:
  "1 \<le> m \<Longrightarrow> m \<le> 12 \<Longrightarrow> 28 \<le> month_days lp m"
  using int_1_12_cases [of m] by (auto simp: calendar_simps)

lemma month_days_not_feb:
  "m \<noteq> 2 \<Longrightarrow> month_days lp m = month_length m"
  by (simp add: month_days_def)

lemma advance_date_valid_cases:
  assumes "valid_date dt"
  shows "advance_date dt =
    (if day dt < month_days (is_leap (year dt)) (month dt) then dt\<lparr>day := day dt + 1\<rparr>
     else if month dt < 12 then dt\<lparr>month := month dt + 1, day := 1\<rparr>
     else dt\<lparr>month := 1, day := 1, year := year dt + 1\<rparr>)"
  using assms by (auto simp: advance_date_def valid_date_def month_days_def Let_def)

lemma days_before_year_Suc:
  "days_before_year (Suc n) = days_before_year n + (if n mod 4 = 0 then 366 else 365)"
  unfolding days_before_year_def by presburger

lemma days_before_year_mono:
  "a \<le> b \<Longrightarrow> days_before_year a \<le> days_before_year b"
  unfolding days_before_year_def by (intro add_mono mult_le_mono2 div_le_mono) simp_all

lemma days_before_month_Suc:
  assumes "1 \<le> m" "m \<le> 12"
  shows "days_before_month lp (m + 1) = days_before_month lp m + nat (month_days lp m)"
proof -
  have "[1..m] = [1..m - 1] @ [m]"
    using assms by (simp add: upto_rec2)
  moreover have "0 \<le> sum_list (map (month_days lp) [1..m - 1])"
    using assms by (intro sum_list_nonneg) (auto intro: order_trans [OF _ month_days_pos])
  moreover have "0 \<le> month_days lp m"
    using month_days_pos [OF assms, of lp] by simp
  ultimately show ?thesis
    by (simp add: days_before_month_def nat_add_distrib)
qed

lemma days_before_month_12: "days_before_month lp 12 = (if lp then 335 else 334)"
  by (simp add: days_before_month_def calendar_simps upto_rec1)

lemma days_before_month_1: "days_before_month lp 1 = 0"
  by (simp add: days_before_month_def)

lemma days_in_year_bound:
  assumes "valid_date dt"
  shows "days_before_month (is_leap (year dt)) (month dt) + nat (day dt - 1)
    < (if is_leap (year dt) then 366 else 365)"
proof -
  let ?lp = "is_leap (year dt)" and ?m = "month dt"
  have m: "1 \<le> ?m" "?m \<le> 12" and d: "1 \<le> day dt" "day dt \<le> month_days ?lp ?m"
    using assms by (auto simp: valid_date_def)
  have "days_before_month ?lp ?m + nat (month_days ?lp ?m) \<le> days_before_month ?lp 12 + 31"
    using int_1_12_cases [OF m]
    by (auto simp: days_before_month_def calendar_simps upto_rec1)
  with d show ?thesis
    by (auto simp: days_before_month_12)
qed

lemma day_number_lt_next_year:
  assumes "valid_date dt"
  shows "day_number dt < days_before_year (Suc (unat (year dt)))"
  using days_in_year_bound [OF assms]
  by (simp add: day_number_def days_before_year_Suc is_leap_unat split: if_splits)

lemma day_number_lt_cycle:
  assumes "valid_date dt"
  shows "day_number dt < cycle_days"
proof -
  have "days_before_year (Suc (unat (year dt))) \<le> cycle_days"
    unfolding cycle_days_def
    by (rule days_before_year_mono) (use unat_short_bound [of "year dt"] in linarith)
  with day_number_lt_next_year [OF assms] show ?thesis by simp
qed

lemma day_number_advance:
  assumes "valid_date dt"
  shows "day_number (advance_date dt) = (day_number dt + 1) mod cycle_days"
proof -
  let ?lp = "is_leap (year dt)" and ?m = "month dt" and ?u = "unat (year dt)"
  have m: "1 \<le> ?m" "?m \<le> 12" and d: "1 \<le> day dt" "day dt \<le> month_days ?lp ?m"
    using assms by (auto simp: valid_date_def)
  have lt: "day_number dt < cycle_days"
    by (rule day_number_lt_cycle [OF assms])
  consider (inmonth) "day dt < month_days ?lp ?m"
    | (endmonth) "day dt = month_days ?lp ?m" "?m < 12"
    | (endyear) "day dt = month_days ?lp ?m" "?m = 12"
    using d m by linarith
  then show ?thesis
  proof cases
    case inmonth
    then have "day_number (advance_date dt) = day_number dt + 1"
      using d by (simp add: advance_date_valid_cases [OF assms] day_number_def nat_add_distrib)
    moreover have "day_number dt + 1 < cycle_days"
    proof -
      have "valid_date (dt\<lparr>day := day dt + 1\<rparr>)"
        using assms inmonth by (simp add: valid_date_def)
      then have "day_number (dt\<lparr>day := day dt + 1\<rparr>) < cycle_days"
        by (rule day_number_lt_cycle)
      with d show ?thesis by (simp add: day_number_def nat_add_distrib)
    qed
    ultimately show ?thesis by simp
  next
    case endmonth
    then have "day_number (advance_date dt) =
        days_before_year ?u + days_before_month ?lp ?m + nat (month_days ?lp ?m)"
      using m by (simp add: advance_date_valid_cases [OF assms] day_number_def days_before_month_Suc)
    also have "\<dots> = day_number dt + 1"
      using endmonth d by (simp add: day_number_def)
    finally have eq: "day_number (advance_date dt) = day_number dt + 1" .
    have "valid_date (advance_date dt)"
      using endmonth m month_days_pos [of "?m + 1" ?lp]
      by (simp add: advance_date_valid_cases [OF assms] valid_date_def)
    then have "day_number dt + 1 < cycle_days"
      using eq day_number_lt_cycle by metis
    with eq show ?thesis by simp
  next
    case endyear
    then have dec: "day dt = 31"
      by (simp add: calendar_simps)
    have last: "day_number dt + 1 = days_before_year (Suc ?u)"
      using endyear dec
      by (simp add: day_number_def days_before_month_12 days_before_year_Suc is_leap_unat)
    have adv: "advance_date dt = dt\<lparr>month := 1, day := 1, year := year dt + 1\<rparr>"
      using endyear dec by (simp add: advance_date_valid_cases [OF assms])
    show ?thesis
    proof (cases "year dt + 1 = 0")
      case True
      then have "day_number dt + 1 = cycle_days"
        using last short_succ_zero [OF True] by (simp add: cycle_days_def)
      with True adv show ?thesis
        by (simp add: day_number_def days_before_month_1 days_before_year_def)
    next
      case False
      have "valid_date (advance_date dt)"
        using adv by (simp add: valid_date_def calendar_simps)
      then have "day_number (advance_date dt) < cycle_days"
        by (rule day_number_lt_cycle)
      moreover have "day_number (advance_date dt) = day_number dt + 1"
        using adv last unat_short_succ [OF False]
        by (simp add: day_number_def days_before_month_1)
      ultimately show ?thesis by simp
    qed
  qed
qed

lemma advance_date_valid:
  assumes "valid_date dt"
  shows "valid_date (advance_date dt)"
  using assms month_days_pos [of "month dt + 1" "is_leap (year dt)"]
  by (auto simp: advance_date_valid_cases [OF assms] valid_date_def calendar_simps)

lemma advance_date_in_range_valid:
  assumes "date_in_range dt"
  shows "valid_date (advance_date dt)"
proof -
  have m: "1 \<le> month dt" "month dt \<le> 12" and d: "0 \<le> day dt"
    using assms by (auto simp: date_in_range_def)
  have "28 \<le> month_days lp (month dt + 1)" if "month dt < 12" for lp
    using m that by (intro month_days_pos) auto
  with m d show ?thesis
    by (auto simp: advance_date_def valid_date_def month_days_def calendar_simps Let_def)
qed

lemma days_before_month_mono:
  assumes "1 \<le> m" "m + int k \<le> 12"
  shows "days_before_month lp m \<le> days_before_month lp (m + int k)"
  using assms(2)
proof (induction k)
  case 0
  then show ?case by simp
next
  case (Suc k)
  then have "days_before_month lp (m + int k + 1) =
      days_before_month lp (m + int k) + nat (month_days lp (m + int k))"
    using assms(1) by (intro days_before_month_Suc) auto
  moreover have eq: "m + int (Suc k) = m + int k + 1"
    by simp
  ultimately show ?case
    using Suc by (simp only: eq) linarith
qed

lemma valid_date_eqI:
  assumes "valid_date a" "valid_date b" "day_number a = day_number b"
  shows "a = b"
proof -
  have ya: "day_number a < days_before_year (Suc (unat (year a)))"
    and yb: "day_number b < days_before_year (Suc (unat (year b)))"
    using day_number_lt_next_year [OF assms(1)] day_number_lt_next_year [OF assms(2)]
    by simp_all
  have "unat (year a) = unat (year b)"
  proof (rule ccontr)
    assume ne: "unat (year a) \<noteq> unat (year b)"
    have lo: "days_before_year (unat (year x)) \<le> day_number x" for x
      by (simp add: day_number_def)
    show False
    proof (cases "unat (year a) < unat (year b)")
      case True
      then have "days_before_year (Suc (unat (year a))) \<le> days_before_year (unat (year b))"
        by (intro days_before_year_mono) simp
      with ya lo [of b] assms(3) show False by simp
    next
      case False
      with ne have "days_before_year (Suc (unat (year b))) \<le> days_before_year (unat (year a))"
        by (intro days_before_year_mono) simp
      with yb lo [of a] assms(3) show False by simp
    qed
  qed
  then have y: "year a = year b"
    by (simp add: word_unat_eq_iff)
  let ?lp = "is_leap (year a)"
  have rest: "days_before_month ?lp (month a) + nat (day a - 1) =
      days_before_month ?lp (month b) + nat (day b - 1)"
    using assms(3) y by (simp add: day_number_def)
  have step: "days_before_month ?lp m1 + nat (day x - 1) < days_before_month ?lp m2"
    if "valid_date x" "year x = year a" "month x = m1" "m1 < m2" "m2 \<le> 12" for x m1 m2
  proof -
    have m1: "1 \<le> m1" and dx: "1 \<le> day x" "day x \<le> month_days ?lp m1"
      using that by (auto simp: valid_date_def)
    have "days_before_month ?lp (m1 + 1) \<le> days_before_month ?lp (m1 + 1 + int (nat (m2 - m1 - 1)))"
      using m1 that by (intro days_before_month_mono) auto
    moreover have "days_before_month ?lp (m1 + 1) = days_before_month ?lp m1 + nat (month_days ?lp m1)"
      using m1 that by (intro days_before_month_Suc) auto
    ultimately show ?thesis
      using that dx by auto
  qed
  have "month a = month b"
  proof (rule ccontr)
    assume "month a \<noteq> month b"
    then consider "month a < month b" | "month b < month a" by linarith
    moreover have m12: "month a \<le> 12" "month b \<le> 12"
      using assms(1,2) by (simp_all add: valid_date_def)
    ultimately show False
    proof cases
      case 1
      from step [OF assms(1) refl refl 1 m12(2)] rest show False
        by linarith
    next
      case 2
      from step [OF assms(2) y [symmetric] refl 2 m12(1)] rest show False
        by linarith
    qed
  qed
  moreover have "day a = day b"
    using rest assms(1,2) \<open>month a = month b\<close> by (auto simp: valid_date_def)
  ultimately show ?thesis
    using y by (cases a, cases b) simp
qed

lemma advance_iter:
  assumes "valid_date dt"
  shows "valid_date ((advance_date ^^ k) dt) \<and>
    day_number ((advance_date ^^ k) dt) = (day_number dt + k) mod cycle_days"
proof (induction k)
  case 0
  show ?case using assms day_number_lt_cycle [OF assms] by simp
next
  case (Suc k)
  then show ?case
    by (simp add: advance_date_valid day_number_advance mod_Suc_eq)
qed

lemma cycle_days_pos: "0 < cycle_days"
  by (simp add: cycle_days_def days_before_year_def)

lemma advance_reaches:
  assumes "valid_date b" "valid_date e"
  shows "(advance_date ^^ days_until b e) b = e"
proof (rule valid_date_eqI)
  show "valid_date ((advance_date ^^ days_until b e) b)"
    using advance_iter [OF assms(1)] by blast
  show "valid_date e" by (fact assms(2))
  have "day_number ((advance_date ^^ days_until b e) b) =
      (day_number b + days_until b e) mod cycle_days"
    using advance_iter [OF assms(1)] by blast
  also have "\<dots> = day_number e"
    using mod_distance(3) [OF day_number_lt_cycle [OF assms(1)] day_number_lt_cycle [OF assms(2)]]
    by (simp only: days_until_def)
  finally show "day_number ((advance_date ^^ days_until b e) b) = day_number e" .
qed

lemma advance_not_before:
  assumes "valid_date b" "valid_date e" "0 < j" "j < days_until b e"
  shows "(advance_date ^^ j) b \<noteq> e"
proof
  assume "(advance_date ^^ j) b = e"
  then have "(day_number b + j) mod cycle_days = day_number e"
    using advance_iter [OF assms(1), of j] by simp
  with mod_distance(4) [OF day_number_lt_cycle [OF assms(1)] day_number_lt_cycle [OF assms(2)]]
    assms(3,4) show False
    by (simp add: days_until_def)
qed

lemma days_until_bounds:
  assumes "valid_date b" "valid_date e"
  shows "0 < days_until b e" "days_until b e \<le> cycle_days"
  using mod_distance(1,2) [OF day_number_lt_cycle [OF assms(1)] day_number_lt_cycle [OF assms(2)]]
  by (simp_all add: days_until_def)



lemma days_before_month_leap:
  assumes "1 \<le> m" "m \<le> 12"
  shows "days_before_month lp m = days_before_month False m + (if lp \<and> 2 < m then 1 else 0)"
  using int_1_12_cases [OF assms]
  by (auto simp: days_before_month_def calendar_simps upto_rec1)

lemma day_number_next_year:
  assumes "valid_date dt" "\<not> (month dt = 2 \<and> day dt = 29)"
  defines "k \<equiv> (if (month dt \<le> 2 \<and> is_leap (year dt)) \<or> (2 < month dt \<and> is_leap (year dt + 1))
                 then 366 else 365 :: nat)"
  shows "valid_date (dt\<lparr>year := year dt + 1\<rparr>) \<and>
    day_number (dt\<lparr>year := year dt + 1\<rparr>) = (day_number dt + k) mod cycle_days"
proof
  let ?dt' = "dt\<lparr>year := year dt + 1\<rparr>" and ?m = "month dt"
  have m: "1 \<le> ?m" "?m \<le> 12" and d: "1 \<le> day dt"
    using assms(1) by (auto simp: valid_date_def)
  have md: "day dt \<le> month_days lp ?m" for lp
    using assms(1,2) by (cases "?m = 2") (auto simp: valid_date_def month_days_def split: if_splits)
  show valid': "valid_date ?dt'"
    using m d md by (simp add: valid_date_def)
  let ?u = "unat (year dt)"
  have shift: "days_before_month lp ?m = days_before_month False ?m + (if lp \<and> 2 < ?m then 1 else 0)" for lp
    by (rule days_before_month_leap [OF m])
  show "day_number ?dt' = (day_number dt + k) mod cycle_days"
  proof (cases "year dt + 1 = 0")
    case False
    have "day_number ?dt' = day_number dt + k"
      using unat_short_succ [OF False] shift [of "is_leap (year dt)"] shift [of "is_leap (year dt + 1)"]
      by (simp add: day_number_def days_before_year_Suc k_def is_leap_unat)
    moreover have "day_number ?dt' < cycle_days"
      by (rule day_number_lt_cycle [OF valid'])
    ultimately show ?thesis by simp
  next
    case True
    have u: "?u = 65535" by (rule short_succ_zero [OF True])
    then have "\<not> is_leap (year dt)" by (simp add: is_leap_unat)
    moreover have "is_leap (year dt + 1)" using True by (simp add: is_leap_unat)
    ultimately have "day_number dt + k = cycle_days + day_number ?dt'"
      using True u shift [of "is_leap (year dt)"] shift [of True]
      by (simp add: day_number_def k_def cycle_days_def days_before_year_def)
    moreover have "day_number ?dt' < cycle_days"
      by (rule day_number_lt_cycle [OF valid'])
    ultimately show ?thesis by simp
  qed
qed

section \<open>Properties of the calendar\<close>

text \<open>Claim C7. \<open>AdvanceDate\<close> refines the successor on day numbers: from a valid
  date it yields a valid date whose day number is one more, modulo the length of the
  16-bit year cycle.\<close>

theorem advance_date_refines_successor:
  assumes "valid_date dt"
  shows "valid_date (advance_date dt) \<and>
    day_number (advance_date dt) = (day_number dt + 1) mod cycle_days"
  using advance_date_valid [OF assms] day_number_advance [OF assms] by simp

theorem advance_date_refines_successor_witness:
  "valid_date \<lparr>month = 12, day = 31, year = 2019\<rparr> \<and>
   advance_date \<lparr>month = 12, day = 31, year = 2019\<rparr> = \<lparr>month = 1, day = 1, year = 2020\<rparr> \<and>
   day_number (advance_date \<lparr>month = 12, day = 31, year = 2019\<rparr>) =
     (day_number \<lparr>month = 12, day = 31, year = 2019\<rparr> + 1) mod cycle_days"
proof -
  have v: "valid_date \<lparr>month = 12, day = 31, year = 2019\<rparr>"
    by (simp add: valid_date_def calendar_simps)
  show ?thesis
    using v advance_date_refines_successor [OF v]
    by (simp add: advance_date_def calendar_simps)
qed


text \<open>Claim C9. From a valid date, repeated \<open>AdvanceDate\<close> reaches every valid
  date: after exactly \<open>days_until b e\<close> steps (between 1 and the cycle length) it is
  at \<open>e\<close>, and at no earlier step.\<close>

theorem advance_date_reaches_exactly:
  assumes "valid_date b" "valid_date e"
  shows "0 < days_until b e \<and> days_until b e \<le> cycle_days \<and>
    (advance_date ^^ days_until b e) b = e \<and>
    (\<forall>j. 0 < j \<and> j < days_until b e \<longrightarrow> (advance_date ^^ j) b \<noteq> e)"
  using days_until_bounds [OF assms] advance_reaches [OF assms] advance_not_before [OF assms]
  by blast

theorem advance_date_reaches_exactly_witness:
  "days_until \<lparr>month = 1, day = 1, year = 2020\<rparr> \<lparr>month = 1, day = 3, year = 2020\<rparr> = 2 \<and>
   (advance_date ^^ 2) \<lparr>month = 1, day = 1, year = 2020\<rparr> = \<lparr>month = 1, day = 3, year = 2020\<rparr>"
proof -
  have v: "valid_date \<lparr>month = 1, day = 1, year = 2020\<rparr>"
    "valid_date \<lparr>month = 1, day = 3, year = 2020\<rparr>"
    by (simp_all add: valid_date_def calendar_simps)
  have d: "days_until \<lparr>month = 1, day = 1, year = 2020\<rparr> \<lparr>month = 1, day = 3, year = 2020\<rparr> = 2"
    by (simp add: days_until_def day_number_def days_before_month_1 cycle_days_def
        days_before_year_def)
  show ?thesis
    using advance_date_reaches_exactly [OF v] d by simp
qed


text \<open>Claim C15. A valid date other than February 29 comes back to the same month
  and day one year later after 365 advances, or 366 when a February 29 (by the
  program's leap rule) lies in between.\<close>

theorem advance_one_year:
  assumes "valid_date dt" "\<not> (month dt = 2 \<and> day dt = 29)"
  shows "(advance_date ^^ (if (month dt \<le> 2 \<and> is_leap (year dt)) \<or>
                              (2 < month dt \<and> is_leap (year dt + 1))
                           then 366 else 365)) dt = dt\<lparr>year := year dt + 1\<rparr>"
proof (rule valid_date_eqI)
  let ?k = "if (month dt \<le> 2 \<and> is_leap (year dt)) \<or> (2 < month dt \<and> is_leap (year dt + 1))
                 then 366 else 365 :: nat"
  show "valid_date ((advance_date ^^ ?k) dt)"
    using advance_iter [OF assms(1)] by blast
  show "valid_date (dt\<lparr>year := year dt + 1\<rparr>)"
    using day_number_next_year [OF assms] by blast
  show "day_number ((advance_date ^^ ?k) dt) = day_number (dt\<lparr>year := year dt + 1\<rparr>)"
    using advance_iter [OF assms(1), of ?k] day_number_next_year [OF assms] by simp
qed

theorem advance_one_year_witness:
  "(advance_date ^^ 366) \<lparr>month = 1, day = 15, year = 2020\<rparr> = \<lparr>month = 1, day = 15, year = 2021\<rparr>"
  using advance_one_year [of "\<lparr>month = 1, day = 15, year = 2020\<rparr>"]
  by (simp add: valid_date_def calendar_simps is_leap_def)


end
