(* ===== verification/Scheduler.thy ===== *)
theory Scheduler
  imports Calendar
begin

text \<open>
  The transaction registry of BillIntervals.cpp and the four routines that, for one
  simulated day, walk a transaction list and post the transactions that fire:
  \<open>AddInAllOnce\<close>, \<open>AddInAllInterval\<close>, \<open>AddInAllMonthly\<close> and
  \<open>AddInAllBimonthly\<close>. Each C struct \<open>OnceLink\<close>, \<open>IntervalLink\<close>,
  \<open>MonthlyLink\<close>, \<open>BimonthlyLink\<close> is a record without its \<open>Next\<close> pointer;
  a linked list is a HOL list in the same order, and the \<open>while (current != NULL)\<close>
  walk that may update the node it stands on is \<open>walk_list\<close>. The running
  \<open>Balance\<close> and the output stream \<open>BillsOut\<close> are the pair \<open>books\<close>:
  the balance in cents and the list of ledger lines written so far.
\<close>

section \<open>Data\<close>

record once_link =
  o_start :: date
  o_amount :: int
  o_descr :: string

record interval_link =
  i_start :: date
  i_interval :: short
  i_started :: bool
  i_counter :: short
  i_amount :: int
  i_descr :: string

record monthly_link =
  m_start :: date
  m_started :: bool
  m_amount :: int
  m_descr :: string

record bimonthly_link =
  b_start :: date
  b_started :: bool
  b_amount :: int
  b_descr :: string

text \<open>The four list heads \<open>main\<close> keeps.\<close>

record registry =
  onces :: "once_link list"
  intervals :: "interval_link list"
  monthlies :: "monthly_link list"
  bimonthlies :: "bimonthly_link list"

text \<open>One ledger line: \<open>Balance,Amount,M-D-Y,Description\<close>.\<close>

record entry =
  e_balance :: int
  e_amount :: int
  e_date :: date
  e_descr :: string

type_synonym books = "int \<times> entry list"

section \<open>Posting and walking a list\<close>

definition print_transaction :: "int \<Rightarrow> int \<Rightarrow> date \<Rightarrow> string \<Rightarrow> entry" where
  "print_transaction bal amt dt descr =
     \<lparr>e_balance = bal, e_amount = amt, e_date = dt, e_descr = descr\<rparr>"

text \<open>\<open>Balance += Amount; BillsOut << Balance << ","; PrintTransaction(...)\<close>\<close>

definition post :: "int \<Rightarrow> date \<Rightarrow> string \<Rightarrow> books \<Rightarrow> books" where
  "post amt dt descr bk =
     (let bal = fst bk + amt in (bal, snd bk @ [print_transaction bal amt dt descr]))"

fun walk_list :: "('n \<Rightarrow> 's \<Rightarrow> 'n \<times> 's) \<Rightarrow> 'n list \<Rightarrow> 's \<Rightarrow> 'n list \<times> 's" where
  "walk_list f [] s = ([], s)"
| "walk_list f (n # ns) s =
     (let (n', s') = f n s; (ns', s'') = walk_list f ns s' in (n' # ns', s''))"

section \<open>The four routines\<close>

definition once_visit :: "date \<Rightarrow> once_link \<Rightarrow> books \<Rightarrow> once_link \<times> books" where
  "once_visit cur ol bk =
     (ol, if o_start ol = cur then post (o_amount ol) cur (o_descr ol) bk else bk)"

definition add_in_all_once :: "once_link list \<Rightarrow> books \<Rightarrow> date \<Rightarrow> books" where
  "add_in_all_once os bk cur = snd (walk_list (once_visit cur) os bk)"

definition interval_visit :: "date \<Rightarrow> interval_link \<Rightarrow> books \<Rightarrow> interval_link \<times> books" where
  "interval_visit cur l bk =
     (let l1 = (if i_start l = cur then l\<lparr>i_started := True, i_counter := 0\<rparr> else l) in
      if i_started l1 then
        (let bk' = (if i_counter l1 = 0 then post (i_amount l1) cur (i_descr l1) bk else bk);
             c = i_counter l1 + 1
         in (l1\<lparr>i_counter := (if c = i_interval l1 then 0 else c)\<rparr>, bk'))
      else (l1, bk))"

definition add_in_all_interval ::
  "interval_link list \<Rightarrow> books \<Rightarrow> date \<Rightarrow> interval_link list \<times> books" where
  "add_in_all_interval ls bk cur = walk_list (interval_visit cur) ls bk"

definition monthly_visit :: "date \<Rightarrow> monthly_link \<Rightarrow> books \<Rightarrow> monthly_link \<times> books" where
  "monthly_visit cur l bk =
     (let l1 = (if \<not> m_started l \<and> m_start l = cur then l\<lparr>m_started := True\<rparr> else l) in
      (l1, if m_started l1 \<and> day cur = day (m_start l1)
           then post (m_amount l1) cur (m_descr l1) bk else bk))"

definition add_in_all_monthly ::
  "monthly_link list \<Rightarrow> books \<Rightarrow> date \<Rightarrow> monthly_link list \<times> books" where
  "add_in_all_monthly ls bk cur = walk_list (monthly_visit cur) ls bk"

text \<open>\<open>AddInAllBimonthly\<close> has its own copy of the month-length table, with 0 for
  February, and reads \<open>length[CurrM-1]\<close>.\<close>

definition bimonthly_tab :: "int list" where
  "bimonthly_tab = [31, 0, 31, 30, 31, 30, 31, 31, 30, 31, 30, 31]"

definition bimonthly_last_day :: "int \<Rightarrow> int" where
  "bimonthly_last_day m = (if 1 \<le> m \<and> m \<le> 12 then bimonthly_tab ! nat (m - 1) else undefined)"

definition bimonthly_visit :: "date \<Rightarrow> bimonthly_link \<Rightarrow> books \<Rightarrow> bimonthly_link \<times> books" where
  "bimonthly_visit cur l bk =
     (let l1 = (if \<not> b_started l \<and> b_start l = cur then l\<lparr>b_started := True\<rparr> else l) in
      (l1, if b_started l1 \<and> (day cur = 15 \<or> day cur = bimonthly_last_day (month cur))
           then post (b_amount l1) cur (b_descr l1) bk else bk))"

definition add_in_all_bimonthly ::
  "bimonthly_link list \<Rightarrow> books \<Rightarrow> date \<Rightarrow> bimonthly_link list \<times> books" where
  "add_in_all_bimonthly ls bk cur = walk_list (bimonthly_visit cur) ls bk"

section \<open>Specification-level notions\<close>

text \<open>The ledger is consistent from balance \<open>b\<close> to balance \<open>bal\<close>: each line's
  balance is the previous balance plus the line's amount, and the last is \<open>bal\<close>.\<close>

fun ledger_ok :: "int \<Rightarrow> entry list \<Rightarrow> int \<Rightarrow> bool" where
  "ledger_ok b [] bal \<longleftrightarrow> bal = b"
| "ledger_ok b (x # xs) bal \<longleftrightarrow> e_balance x = b + e_amount x \<and> ledger_ok (e_balance x) xs bal"

text \<open>The period of an interval transaction: \<open>Counter\<close> counts up to \<open>Interval\<close>
  and is reset there; with \<open>Interval = 0\<close> it only returns to 0 by wrapping at 2^16.\<close>

definition interval_period :: "short \<Rightarrow> nat" where
  "interval_period k = (if k = 0 then 65536 else unat k)"

text \<open>One transaction followed over a sequence of days, as the day loop visits it.\<close>

fun interval_run :: "interval_link \<Rightarrow> date list \<Rightarrow> books \<Rightarrow> interval_link \<times> books" where
  "interval_run l [] bk = (l, bk)"
| "interval_run l (d # ds) bk = (case interval_visit d l bk of (l', bk') \<Rightarrow> interval_run l' ds bk')"

fun monthly_run :: "monthly_link \<Rightarrow> date list \<Rightarrow> books \<Rightarrow> monthly_link \<times> books" where
  "monthly_run l [] bk = (l, bk)"
| "monthly_run l (d # ds) bk = (case monthly_visit d l bk of (l', bk') \<Rightarrow> monthly_run l' ds bk')"

definition post_all :: "int \<Rightarrow> string \<Rightarrow> date list \<Rightarrow> books \<Rightarrow> books" where
  "post_all amt descr ds bk = fold (\<lambda>d. post amt d descr) ds bk"

section \<open>Lemmas\<close>

lemma walk_list_snd: "snd (walk_list f ns s) = fold (\<lambda>n s. snd (f n s)) ns s"
  by (induction ns arbitrary: s) (simp_all add: split_beta)

lemma walk_list_length [simp]: "length (fst (walk_list f ns s)) = length ns"
  by (induction ns arbitrary: s) (simp_all add: split_beta)

lemma walk_list_state_inv:
  assumes "\<And>n s. P s \<Longrightarrow> P (snd (f n s))" "P s"
  shows "P (snd (walk_list f ns s))"
  using assms(2) by (induction ns arbitrary: s) (simp_all add: split_beta assms(1))

lemma walk_list_node_inv:
  assumes "\<And>n s. Q n \<Longrightarrow> Q (fst (f n s))" "list_all Q ns"
  shows "list_all Q (fst (walk_list f ns s))"
  using assms(2) by (induction ns arbitrary: s) (simp_all add: split_beta assms(1))

lemma ledger_ok_snoc:
  "ledger_ok b (xs @ [x]) bal' \<longleftrightarrow> (\<exists>bal. ledger_ok b xs bal \<and> e_balance x = bal + e_amount x \<and> bal' = e_balance x)"
  by (induction xs arbitrary: b) auto

lemma ledger_ok_post:
  assumes "ledger_ok b (snd bk) (fst bk)"
  shows "ledger_ok b (snd (post amt dt descr bk)) (fst (post amt dt descr bk))"
  using assms by (auto simp: post_def ledger_ok_snoc print_transaction_def Let_def)

lemma ledger_ok_sum: "ledger_ok b xs bal \<Longrightarrow> bal = b + sum_list (map e_amount xs)"
proof (induction xs arbitrary: b)
  case (Cons x xs)
  from Cons.prems have ok: "ledger_ok (e_balance x) xs bal" and eb: "e_balance x = b + e_amount x"
    unfolding ledger_ok.simps by blast+
  from ok have "bal = e_balance x + sum_list (map e_amount xs)"
    by (rule Cons.IH)
  with eb have "bal = (b + e_amount x) + sum_list (map e_amount xs)"
    by simp
  then show ?case by simp
qed simp

lemma interval_period_pos: "0 < interval_period k"
  by (simp add: interval_period_def unat_gt_0)

lemma interval_period_le: "interval_period k \<le> 65536"
  using unat_short_bound [of k] by (simp add: interval_period_def)

lemma interval_counter_step:
  fixes c k :: short
  assumes "unat c < interval_period k"
  shows "unat (if c + 1 = k then 0 else c + 1) = (unat c + 1) mod interval_period k"
proof (cases "c + 1 = k")
  case True
  show ?thesis
  proof (cases "k = 0")
    case True
    with \<open>c + 1 = k\<close> have "unat c = 65535" by (intro short_succ_zero) simp
    with True \<open>c + 1 = k\<close> show ?thesis by (simp add: interval_period_def)
  next
    case False
    with \<open>c + 1 = k\<close> have "unat k = Suc (unat c)" using unat_short_succ by blast
    with True False show ?thesis by (simp add: interval_period_def)
  qed
next
  case False
  show ?thesis
  proof (cases "c + 1 = 0")
    case True
    then have "unat c = 65535" by (rule short_succ_zero)
    with assms interval_period_le [of k] have "interval_period k = 65536" by simp
    then have "k = 0"
      using unat_short_bound [of k] by (simp add: interval_period_def split: if_splits)
    with True False show ?thesis by simp
  next
    case c0: False
    then have u: "unat (c + 1) = Suc (unat c)" by (rule unat_short_succ)
    have "Suc (unat c) \<noteq> interval_period k"
    proof
      assume eq: "Suc (unat c) = interval_period k"
      show False
      proof (cases "k = 0")
        case True
        with eq have "unat (c + 1) = 65536" using u by (simp add: interval_period_def)
        then show False using unat_short_bound [of "c + 1"] by simp
      next
        case k0: False
        with eq u have "unat (c + 1) = unat k" by (simp add: interval_period_def)
        then have "c + 1 = k" by (simp add: word_unat_eq_iff)
        with False show False by simp
      qed
    qed
    with assms have "Suc (unat c) < interval_period k" by simp
    with False u show ?thesis by simp
  qed
qed

lemma map_nth_filter_Cons:
  "map ((!) (x # xs)) (filter Q [0..<Suc n]) =
     (if Q 0 then [x] else []) @ map ((!) xs) (filter (\<lambda>j. Q (Suc j)) [0..<n])"
proof -
  have "[0..<Suc n] = 0 # map Suc [0..<n]"
    by (simp add: map_Suc_upt upt_conv_Cons)
  then show ?thesis
    by (simp add: filter_map comp_def)
qed

lemma post_all_Cons:
  "post_all amt descr (d # ds) bk = post_all amt descr ds (post amt d descr bk)"
  by (simp add: post_all_def)

lemma post_all_append:
  "post_all amt descr (xs @ ys) bk = post_all amt descr ys (post_all amt descr xs bk)"
  by (simp add: post_all_def)

lemma interval_visit_running:
  assumes "i_started l" "i_start l \<noteq> cur"
  shows "interval_visit cur l bk =
    (l\<lparr>i_counter := (if i_counter l + 1 = i_interval l then 0 else i_counter l + 1)\<rparr>,
     if i_counter l = 0 then post (i_amount l) cur (i_descr l) bk else bk)"
  using assms by (simp add: interval_visit_def Let_def)

lemma interval_visit_start:
  assumes "i_start l = cur"
  shows "interval_visit cur l bk =
    (l\<lparr>i_started := True, i_counter := (if 1 = i_interval l then 0 else 1)\<rparr>,
     post (i_amount l) cur (i_descr l) bk)"
  using assms by (simp add: interval_visit_def Let_def)

lemma interval_run_running:
  assumes "i_started l" "i_start l \<notin> set ds" "unat (i_counter l) < interval_period (i_interval l)"
  shows "snd (interval_run l ds bk) =
    post_all (i_amount l) (i_descr l)
      (map ((!) ds) (filter (\<lambda>j. (unat (i_counter l) + j) mod interval_period (i_interval l) = 0)
        [0..<length ds])) bk"
  using assms
proof (induction ds arbitrary: l bk)
  case Nil
  then show ?case by (simp add: post_all_def)
next
  case (Cons d ds)
  let ?P = "interval_period (i_interval l)" and ?c = "i_counter l"
  let ?c' = "if ?c + 1 = i_interval l then 0 else ?c + 1"
  let ?l' = "l\<lparr>i_counter := ?c'\<rparr>"
  let ?bk' = "if ?c = 0 then post (i_amount l) d (i_descr l) bk else bk"
  have visit: "interval_visit d l bk = (?l', ?bk')"
    using Cons.prems by (intro interval_visit_running) auto
  have c': "unat ?c' = (unat ?c + 1) mod ?P"
    by (rule interval_counter_step [OF Cons.prems(3)])
  have IH: "snd (interval_run ?l' ds ?bk') =
      post_all (i_amount l) (i_descr l)
        (map ((!) ds) (filter (\<lambda>j. (unat ?c' + j) mod ?P = 0) [0..<length ds])) ?bk'"
    using Cons.prems c' interval_period_pos [of "i_interval l"]
    by (intro Cons.IH [of ?l' ?bk', simplified]) auto
  have shift: "(unat ?c' + j) mod ?P = 0 \<longleftrightarrow> (unat ?c + Suc j) mod ?P = 0" for j
    using c' by (simp add: mod_add_left_eq)
  have first: "?c = 0 \<longleftrightarrow> (unat ?c + 0) mod ?P = 0"
    using Cons.prems(3) by (simp add: unat_eq_zero)
  have split: "map ((!) (d # ds)) (filter (\<lambda>j. (unat ?c + j) mod ?P = 0) [0..<length (d # ds)]) =
      (if (unat ?c + 0) mod ?P = 0 then [d] else []) @
      map ((!) ds) (filter (\<lambda>j. (unat ?c + Suc j) mod ?P = 0) [0..<length ds])"
    unfolding length_Cons by (rule map_nth_filter_Cons)
  have rest: "map ((!) ds) (filter (\<lambda>j. (unat ?c' + j) mod ?P = 0) [0..<length ds]) =
      map ((!) ds) (filter (\<lambda>j. (unat ?c + Suc j) mod ?P = 0) [0..<length ds])"
    using shift by simp
  show ?case
    using IH visit first
    by (simp only: split rest interval_run.simps prod.case post_all_append)
       (simp add: post_all_def)
qed

lemma interval_visit_counter_inv:
  assumes "unat (i_counter l) < interval_period (i_interval l)"
  shows "unat (i_counter (fst (interval_visit cur l bk))) < interval_period (i_interval (fst (interval_visit cur l bk)))
    \<and> i_interval (fst (interval_visit cur l bk)) = i_interval l"
proof -
  let ?l1 = "if i_start l = cur then l\<lparr>i_started := True, i_counter := 0\<rparr> else l"
  have l1: "unat (i_counter ?l1) < interval_period (i_interval l)" "i_interval ?l1 = i_interval l"
    using assms interval_period_pos [of "i_interval l"] by simp_all
  have "unat (if i_counter ?l1 + 1 = i_interval l then 0 else i_counter ?l1 + 1) < interval_period (i_interval l)"
    using interval_counter_step [OF l1(1)] interval_period_pos [of "i_interval l"] by simp
  then show ?thesis
    using l1 by (simp add: interval_visit_def Let_def)
qed

lemma interval_run_dormant:
  assumes "\<not> i_started l" "i_start l \<notin> set ds"
  shows "snd (interval_run l ds bk) = bk"
  using assms by (induction ds arbitrary: bk) (simp_all add: interval_visit_def)

lemma monthly_run_started:
  assumes "m_started l"
  shows "snd (monthly_run l ds bk) = post_all (m_amount l) (m_descr l) (filter (\<lambda>d. day d = day (m_start l)) ds) bk"
  using assms by (induction ds arbitrary: bk) (simp_all add: monthly_visit_def post_all_def)

lemma monthly_run_dormant:
  assumes "\<not> m_started l" "m_start l \<notin> set ds"
  shows "snd (monthly_run l ds bk) = bk"
  using assms by (induction ds arbitrary: bk) (simp_all add: monthly_visit_def)

lemma bimonthly_last_day_eq:
  "1 \<le> m \<Longrightarrow> m \<le> 12 \<Longrightarrow> bimonthly_last_day m = (if m = 2 then 0 else month_length m)"
  using int_1_12_cases [of m]
  by (auto simp: bimonthly_last_day_def bimonthly_tab_def calendar_simps)

lemma monthly_visit_start:
  assumes "m_start l = d0"
  shows "monthly_visit d0 l bk =
    (l\<lparr>m_started := True\<rparr>, post (m_amount l) d0 (m_descr l) bk)"
  using assms by (cases l) (auto simp: monthly_visit_def)

section \<open>Properties of the four routines\<close>

text \<open>Claim C5. An interval transaction fires on its start date and then on every
  day whose distance from the start is a multiple of its period (\<open>Interval\<close>, or
  65536 when \<open>Interval\<close> is 0 and only the 16-bit wrap of \<open>Counter\<close> brings it
  back to 0), and on no other day, as long as the start date does not come round
  again.\<close>

theorem interval_fires_periodically:
  assumes "i_start l = d0" "d0 \<notin> set ds"
  shows "snd (interval_run l (d0 # ds) bk) =
    post_all (i_amount l) (i_descr l)
      (map ((!) (d0 # ds)) (filter (\<lambda>j. j mod interval_period (i_interval l) = 0)
        [0..<length (d0 # ds)])) bk"
proof -
  let ?P = "interval_period (i_interval l)"
  let ?c1 = "if 1 = i_interval l then 0 else 1 :: short"
  let ?l' = "l\<lparr>i_started := True, i_counter := ?c1\<rparr>"
  have c1: "unat ?c1 = (0 + 1) mod ?P"
    using interval_counter_step [of 0 "i_interval l"] interval_period_pos [of "i_interval l"]
    by (simp add: interval_period_def unat_short_eq_1)
  have visit: "interval_visit d0 l bk = (?l', post (i_amount l) d0 (i_descr l) bk)"
    using interval_visit_start [OF assms(1)] by simp
  have run: "snd (interval_run ?l' ds (post (i_amount l) d0 (i_descr l) bk)) =
      post_all (i_amount l) (i_descr l)
        (map ((!) ds) (filter (\<lambda>j. (unat ?c1 + j) mod ?P = 0) [0..<length ds]))
        (post (i_amount l) d0 (i_descr l) bk)"
    using interval_run_running [of ?l' ds] assms c1 interval_period_pos [of "i_interval l"] by simp
  have split: "map ((!) (d0 # ds)) (filter (\<lambda>j. j mod ?P = 0) [0..<length (d0 # ds)]) =
      [d0] @ map ((!) ds) (filter (\<lambda>j. Suc j mod ?P = 0) [0..<length ds])"
    unfolding length_Cons by (simp only: map_nth_filter_Cons) simp
  have rest: "(unat ?c1 + j) mod ?P = 0 \<longleftrightarrow> Suc j mod ?P = 0" for j
    using c1 by (simp add: mod_add_left_eq)
  have "snd (interval_run l (d0 # ds) bk) =
      snd (interval_run ?l' ds (post (i_amount l) d0 (i_descr l) bk))"
    using visit by simp
  also have "\<dots> = post_all (i_amount l) (i_descr l)
      (map ((!) ds) (filter (\<lambda>j. Suc j mod ?P = 0) [0..<length ds]))
      (post (i_amount l) d0 (i_descr l) bk)"
    using run by (simp only: rest)
  also have "\<dots> = post_all (i_amount l) (i_descr l)
      ([d0] @ map ((!) ds) (filter (\<lambda>j. Suc j mod ?P = 0) [0..<length ds])) bk"
    by (simp add: post_all_def)
  also have "\<dots> = post_all (i_amount l) (i_descr l)
      (map ((!) (d0 # ds)) (filter (\<lambda>j. j mod ?P = 0) [0..<length (d0 # ds)])) bk"
    by (simp only: split)
  finally show ?thesis .
qed

theorem interval_fires_periodically_witness:
  "snd (interval_run \<lparr>i_start = \<lparr>month = 1, day = 1, year = 2020\<rparr>, i_interval = 2, i_started = False,
       i_counter = 0, i_amount = -8000, i_descr = ''CarService''\<rparr>
     [\<lparr>month = 1, day = 1, year = 2020\<rparr>, \<lparr>month = 1, day = 2, year = 2020\<rparr>,
      \<lparr>month = 1, day = 3, year = 2020\<rparr>] (0, [])) =
   post_all (-8000) ''CarService''
     [\<lparr>month = 1, day = 1, year = 2020\<rparr>, \<lparr>month = 1, day = 3, year = 2020\<rparr>] (0, [])"
  using interval_fires_periodically [of "\<lparr>i_start = \<lparr>month = 1, day = 1, year = 2020\<rparr>, i_interval = 2,
       i_started = False, i_counter = 0, i_amount = -8000, i_descr = ''CarService''\<rparr>"
      "\<lparr>month = 1, day = 1, year = 2020\<rparr>"
      "[\<lparr>month = 1, day = 2, year = 2020\<rparr>, \<lparr>month = 1, day = 3, year = 2020\<rparr>]" "(0, [])"]
  by (simp add: interval_period_def upt_rec)

text \<open>Claim C11. \<open>AddInAllOnce\<close> posts, in list order, exactly the one-time
  transactions dated on the current day.\<close>

theorem add_in_all_once_posts_matching:
  "add_in_all_once os bk cur =
     fold (\<lambda>ol. post (o_amount ol) cur (o_descr ol)) (filter (\<lambda>ol. o_start ol = cur) os) bk"
proof -
  have "fold (\<lambda>n s. snd (once_visit cur n s)) os bk =
      fold (\<lambda>ol. post (o_amount ol) cur (o_descr ol)) (filter (\<lambda>ol. o_start ol = cur) os) bk"
    by (induction os arbitrary: bk) (simp_all add: once_visit_def)
  then show ?thesis
    by (simp add: add_in_all_once_def walk_list_snd)
qed

text \<open>Claim C12. A monthly transaction, from its start date on, fires on every day whose
  day of the month is the start's day of the month, and on no other day; months that
  lack that day are skipped.\<close>

theorem monthly_fires_on_start_day_of_month:
  assumes "m_start l = d0"
  shows "snd (monthly_run l (d0 # ds) bk) =
    post_all (m_amount l) (m_descr l) (filter (\<lambda>d. day d = day d0) (d0 # ds)) bk"
proof -
  have "snd (monthly_run l (d0 # ds) bk) =
      snd (monthly_run (l\<lparr>m_started := True\<rparr>) ds (post (m_amount l) d0 (m_descr l) bk))"
    using monthly_visit_start [OF assms] by simp
  also have "\<dots> = post_all (m_amount l) (m_descr l) (filter (\<lambda>d. day d = day d0) ds)
      (post (m_amount l) d0 (m_descr l) bk)"
    using monthly_run_started [of "l\<lparr>m_started := True\<rparr>" ds] assms by simp
  finally show ?thesis
    by (simp add: post_all_Cons)
qed

theorem monthly_fires_on_start_day_of_month_witness:
  "snd (monthly_run \<lparr>m_start = \<lparr>month = 1, day = 15, year = 2020\<rparr>, m_started = False,
       m_amount = -3500, m_descr = ''FastLane''\<rparr>
     [\<lparr>month = 1, day = 15, year = 2020\<rparr>, \<lparr>month = 1, day = 16, year = 2020\<rparr>,
      \<lparr>month = 2, day = 15, year = 2020\<rparr>] (0, [])) =
   post_all (-3500) ''FastLane''
     [\<lparr>month = 1, day = 15, year = 2020\<rparr>, \<lparr>month = 2, day = 15, year = 2020\<rparr>] (0, [])"
  using monthly_fires_on_start_day_of_month [of "\<lparr>m_start = \<lparr>month = 1, day = 15, year = 2020\<rparr>,
      m_started = False, m_amount = -3500, m_descr = ''FastLane''\<rparr>"
      "\<lparr>month = 1, day = 15, year = 2020\<rparr>"
      "[\<lparr>month = 1, day = 16, year = 2020\<rparr>, \<lparr>month = 2, day = 15, year = 2020\<rparr>]" "(0, [])"]
  by simp

text \<open>Claim C13. A started bimonthly transaction fires on the 15th and on the day the
  table gives as the month's last; for February the table holds 0, so in February it
  fires on the 15th only, never on the 28th or 29th.\<close>

theorem bimonthly_fires_mid_and_table_end:
  assumes "1 \<le> month cur" "month cur \<le> 12" "1 \<le> day cur"
  shows "snd (bimonthly_visit cur l bk) =
    (if (b_started l \<or> b_start l = cur) \<and>
        (day cur = 15 \<or> (month cur \<noteq> 2 \<and> day cur = month_length (month cur)))
     then post (b_amount l) cur (b_descr l) bk else bk)"
  using assms bimonthly_last_day_eq [of "month cur"]
  by (auto simp: bimonthly_visit_def)

theorem bimonthly_fires_mid_and_table_end_witness:
  "snd (bimonthly_visit \<lparr>month = 2, day = 29, year = 2020\<rparr>
     \<lparr>b_start = \<lparr>month = 1, day = 1, year = 2020\<rparr>, b_started = True, b_amount = 100, b_descr = ''Pay''\<rparr>
     (0, [])) = (0, [])"
  using bimonthly_fires_mid_and_table_end [of "\<lparr>month = 2, day = 29, year = 2020\<rparr>"
      "\<lparr>b_start = \<lparr>month = 1, day = 1, year = 2020\<rparr>, b_started = True, b_amount = 100,
        b_descr = ''Pay''\<rparr>" "(0, [])"]
  by simp

text \<open>Claim C17. Before its start date a repeating transaction is dormant: over days
  that do not include its start date, an interval or monthly transaction that has not
  started posts nothing.\<close>

theorem repeating_dormant_before_start:
  "(\<not> i_started il \<and> i_start il \<notin> set ds \<longrightarrow> snd (interval_run il ds bk) = bk) \<and>
   (\<not> m_started ml \<and> m_start ml \<notin> set ds \<longrightarrow> snd (monthly_run ml ds bk) = bk)"
  using interval_run_dormant [of il ds bk] monthly_run_dormant [of ml ds bk] by blast

theorem repeating_dormant_before_start_witness:
  "snd (interval_run \<lparr>i_start = \<lparr>month = 1, day = 5, year = 2020\<rparr>, i_interval = 2, i_started = False,
       i_counter = 0, i_amount = 1, i_descr = ''A''\<rparr> [\<lparr>month = 1, day = 4, year = 2020\<rparr>] (0, []))
     = (0, []) \<and>
   snd (monthly_run \<lparr>m_start = \<lparr>month = 1, day = 5, year = 2020\<rparr>, m_started = False,
       m_amount = 1, m_descr = ''B''\<rparr> [\<lparr>month = 1, day = 4, year = 2020\<rparr>] (0, [])) = (0, [])"
  using repeating_dormant_before_start [of "\<lparr>i_start = \<lparr>month = 1, day = 5, year = 2020\<rparr>, i_interval = 2,
      i_started = False, i_counter = 0, i_amount = 1, i_descr = ''A''\<rparr>"
      "[\<lparr>month = 1, day = 4, year = 2020\<rparr>]" "(0, [])"
      "\<lparr>m_start = \<lparr>month = 1, day = 5, year = 2020\<rparr>, m_started = False, m_amount = 1, m_descr = ''B''\<rparr>"]
  by simp

end
