(* ===== verification/Simulator.thy ===== *)
theory Simulator
  imports Scheduler
begin

text \<open>
  The day loop of \<open>main\<close> in BillIntervals.cpp (lines 149-169): the state is the
  registry, the books (\<open>Balance\<close> and \<open>BillsOut\<close>) and the current date
  \<open>CurrM/CurrD/CurrY\<close>. One step does the day's work, the four \<open>AddInAll\<close>
  calls in their fixed order, then advances the date; the loop stops when the advanced
  date equals the End date. The loop is a \<open>partial_function (option)\<close>:
  \<open>None\<close> is a loop that never stops. The same loop as a big-step relation
  \<open>sim_run\<close> carries the invariants by rule induction.
\<close>

section \<open>State and step\<close>

record sim_state =
  s_reg :: registry
  s_books :: books
  s_cur :: date

definition day_work :: "sim_state \<Rightarrow> sim_state" where
  "day_work s =
     (let cur = s_cur s; r = s_reg s;
          bk1 = add_in_all_once (onces r) (s_books s) cur;
          (is', bk2) = add_in_all_interval (intervals r) bk1 cur;
          (ms', bk3) = add_in_all_monthly (monthlies r) bk2 cur;
          (bs', bk4) = add_in_all_bimonthly (bimonthlies r) bk3 cur
      in s\<lparr>s_reg := r\<lparr>intervals := is', monthlies := ms', bimonthlies := bs'\<rparr>, s_books := bk4\<rparr>)"

definition sim_step :: "sim_state \<Rightarrow> sim_state" where
  "sim_step s = (let s1 = day_work s in s1\<lparr>s_cur := advance_date (s_cur s1)\<rparr>)"

partial_function (option) sim_loop :: "date \<Rightarrow> sim_state \<Rightarrow> sim_state option" where
  "sim_loop e s = (let s' = sim_step s in if s_cur s' = e then Some s' else sim_loop e s')"

definition init_state :: "registry \<Rightarrow> date \<Rightarrow> sim_state" where
  "init_state r b = \<lparr>s_reg = r, s_books = (0, []), s_cur = b\<rparr>"

inductive sim_run :: "date \<Rightarrow> sim_state \<Rightarrow> sim_state \<Rightarrow> bool" where
  stop: "s_cur (sim_step s) = e \<Longrightarrow> sim_run e s (sim_step s)"
| continue: "s_cur (sim_step s) \<noteq> e \<Longrightarrow> sim_run e (sim_step s) r \<Longrightarrow> sim_run e s r"

text \<open>Number of loop iterations from Begin \<open>b\<close> to End \<open>e\<close>: the first
  iteration always runs, then the loop runs until the date reaches \<open>e\<close>.\<close>

definition loop_length :: "date \<Rightarrow> date \<Rightarrow> nat" where
  "loop_length b e = (if advance_date b = e then 1 else Suc (days_until (advance_date b) e))"

definition counters_ok :: "registry \<Rightarrow> bool" where
  "counters_ok r \<longleftrightarrow> list_all (\<lambda>l. unat (i_counter l) < interval_period (i_interval l)) (intervals r)"

section \<open>Lemmas\<close>

inductive_cases sim_run_elim: "sim_run e s r"

lemma day_work_cur [simp]: "s_cur (day_work s) = s_cur s"
  by (simp add: day_work_def Let_def split_beta)

lemma sim_step_cur [simp]: "s_cur (sim_step s) = advance_date (s_cur s)"
  by (simp add: sim_step_def Let_def)

lemma sim_iter_cur: "s_cur ((sim_step ^^ k) s) = (advance_date ^^ k) (s_cur s)"
  by (induction k) simp_all

lemma sim_loop_unfold:
  "sim_loop e s = (if s_cur (sim_step s) = e then Some (sim_step s) else sim_loop e (sim_step s))"
  by (subst sim_loop.simps) (simp add: Let_def)

lemma sim_loop_iter:
  assumes "0 < k" "s_cur ((sim_step ^^ k) s) = e"
    "\<forall>j. 0 < j \<and> j < k \<longrightarrow> s_cur ((sim_step ^^ j) s) \<noteq> e"
  shows "sim_loop e s = Some ((sim_step ^^ k) s)"
  using assms
proof (induction k arbitrary: s)
  case 0
  then show ?case by simp
next
  case (Suc k)
  show ?case
  proof (cases "k = 0")
    case True
    with Suc.prems show ?thesis by (simp add: sim_loop_unfold)
  next
    case False
    have ne: "s_cur (sim_step s) \<noteq> e"
      using Suc.prems(3) [rule_format, of 1] False by simp
    have "sim_loop e (sim_step s) = Some ((sim_step ^^ k) (sim_step s))"
    proof (rule Suc.IH)
      show "0 < k" using False by simp
      show "s_cur ((sim_step ^^ k) (sim_step s)) = e"
        using Suc.prems(2) by (simp add: funpow_shift)
      show "\<forall>j. 0 < j \<and> j < k \<longrightarrow> s_cur ((sim_step ^^ j) (sim_step s)) \<noteq> e"
      proof (intro allI impI)
        fix j
        assume "0 < j \<and> j < k"
        then have "s_cur ((sim_step ^^ Suc j) s) \<noteq> e"
          using Suc.prems(3) [rule_format, of "Suc j"] by simp
        then show "s_cur ((sim_step ^^ j) (sim_step s)) \<noteq> e"
          by (simp add: funpow_shift)
      qed
    qed
    with ne show ?thesis
      by (simp add: sim_loop_unfold [of e s] funpow_shift)
  qed
qed

lemma loop_length_hits:
  assumes "date_in_range b" "valid_date e"
  shows "0 < loop_length b e \<and> (advance_date ^^ loop_length b e) b = e \<and>
    (\<forall>j. 0 < j \<and> j < loop_length b e \<longrightarrow> (advance_date ^^ j) b \<noteq> e)"
proof (cases "advance_date b = e")
  case True
  then show ?thesis by (simp add: loop_length_def)
next
  case False
  have b1: "valid_date (advance_date b)"
    by (rule advance_date_in_range_valid [OF assms(1)])
  have hit: "(advance_date ^^ Suc (days_until (advance_date b) e)) b = e"
    using advance_reaches [OF b1 assms(2)] by (simp add: funpow_shift)
  have early: "(advance_date ^^ j) b \<noteq> e" if "0 < j" "j < Suc (days_until (advance_date b) e)" for j
  proof (cases j)
    case 0
    with that show ?thesis by simp
  next
    case (Suc j')
    show ?thesis
    proof (cases j')
      case 0
      with Suc False show ?thesis by simp
    next
      case (Suc j'')
      with \<open>j = Suc j'\<close> that advance_not_before [OF b1 assms(2), of j'] show ?thesis
        by (simp add: funpow_shift)
    qed
  qed
  show ?thesis
    using False hit early by (simp add: loop_length_def)
qed

lemma sim_loop_loop_length:
  assumes "date_in_range (s_cur s)" "valid_date e"
  shows "sim_loop e s = Some ((sim_step ^^ loop_length (s_cur s) e) s)"
proof (rule sim_loop_iter)
  note hits = loop_length_hits [OF assms]
  show "0 < loop_length (s_cur s) e" using hits by blast
  show "s_cur ((sim_step ^^ loop_length (s_cur s) e) s) = e"
    using hits by (simp add: sim_iter_cur)
  show "\<forall>j. 0 < j \<and> j < loop_length (s_cur s) e \<longrightarrow> s_cur ((sim_step ^^ j) s) \<noteq> e"
    using hits by (simp add: sim_iter_cur)
qed

lemma sim_loop_result:
  assumes "sim_loop e s = Some r" "date_in_range (s_cur s)"
  shows "s_cur r = e \<and> valid_date (s_cur r)"
proof -
  have "date_in_range (s_cur s) \<longrightarrow> s_cur r = e \<and> valid_date (s_cur r)"
  proof (rule sim_loop.raw_induct [where P = "\<lambda>e s r. date_in_range (s_cur s) \<longrightarrow>
      s_cur r = e \<and> valid_date (s_cur r)", OF _ assms(1)])
    fix f e s r
    assume IH: "\<And>e s r. f e s = Some r \<Longrightarrow> date_in_range (s_cur s) \<longrightarrow> s_cur r = e \<and> valid_date (s_cur r)"
      and eq: "(let s' = sim_step s in if s_cur s' = e then Some s' else f e s') = Some r"
    show "date_in_range (s_cur s) \<longrightarrow> s_cur r = e \<and> valid_date (s_cur r)"
    proof
      assume rng: "date_in_range (s_cur s)"
      then have v: "valid_date (s_cur (sim_step s))"
        by (simp add: advance_date_in_range_valid)
      show "s_cur r = e \<and> valid_date (s_cur r)"
      proof (cases "s_cur (sim_step s) = e")
        case True
        with eq have "r = sim_step s" by (simp add: Let_def)
        with v True show ?thesis by simp
      next
        case False
        with eq have "f e (sim_step s) = Some r" by (simp add: Let_def)
        moreover have "date_in_range (s_cur (sim_step s))"
          using v by (simp add: valid_date_def date_in_range_def)
        ultimately show ?thesis using IH by blast
      qed
    qed
  qed
  with assms(2) show ?thesis by blast
qed



lemma sim_run_inv:
  assumes "sim_run e s r" "\<And>s. I s \<Longrightarrow> I (sim_step s)" "I s"
  shows "I r"
  using assms(1,3) by (induction rule: sim_run.induct) (auto intro: assms(2))

lemma visit_books_inv:
  assumes "\<And>a d bk. P bk \<Longrightarrow> P (post a cur d bk)"
  shows "P bk \<Longrightarrow> P (snd (once_visit cur ol bk))" "P bk \<Longrightarrow> P (snd (interval_visit cur il bk))"
    "P bk \<Longrightarrow> P (snd (monthly_visit cur ml bk))" "P bk \<Longrightarrow> P (snd (bimonthly_visit cur bl bk))"
  using assms by (simp_all add: once_visit_def interval_visit_def monthly_visit_def
      bimonthly_visit_def Let_def)

lemma day_work_books_inv:
  assumes "\<And>a d bk. P bk \<Longrightarrow> P (post a (s_cur s) d bk)" "P (s_books s)"
  shows "P (s_books (day_work s))"
proof -
  let ?cur = "s_cur s" and ?r = "s_reg s"
  have b1: "P (add_in_all_once (onces ?r) (s_books s) ?cur)"
    unfolding add_in_all_once_def
    by (rule walk_list_state_inv [OF visit_books_inv(1) [where P = P and cur = "s_cur s", OF assms(1)] assms(2)])
  have b2: "P (snd (add_in_all_interval (intervals ?r) bk ?cur))" if "P bk" for bk
    unfolding add_in_all_interval_def
    by (rule walk_list_state_inv [OF visit_books_inv(2) [where P = P and cur = "s_cur s", OF assms(1)] that])
  have b3: "P (snd (add_in_all_monthly (monthlies ?r) bk ?cur))" if "P bk" for bk
    unfolding add_in_all_monthly_def
    by (rule walk_list_state_inv [OF visit_books_inv(3) [where P = P and cur = "s_cur s", OF assms(1)] that])
  have b4: "P (snd (add_in_all_bimonthly (bimonthlies ?r) bk ?cur))" if "P bk" for bk
    unfolding add_in_all_bimonthly_def
    by (rule walk_list_state_inv [OF visit_books_inv(4) [where P = P and cur = "s_cur s", OF assms(1)] that])
  show ?thesis
    using b4 [OF b3 [OF b2 [OF b1]]] by (simp add: day_work_def Let_def split_beta)
qed

lemma sim_step_books_inv:
  assumes "\<And>a d bk. P bk \<Longrightarrow> P (post a (s_cur s) d bk)" "P (s_books s)"
  shows "P (s_books (sim_step s))"
  using day_work_books_inv [OF assms] by (simp add: sim_step_def Let_def)


lemma sim_step_entries_dated:
  "\<exists>new. snd (s_books (sim_step s)) = snd (s_books s) @ new \<and> (\<forall>x\<in>set new. e_date x = s_cur s)"
proof (rule sim_step_books_inv [where P = "\<lambda>bk :: books. \<exists>new. snd bk = snd (s_books s) @ new \<and>
    (\<forall>x\<in>set new. e_date x = s_cur s)"])
  fix a d and bk :: books
  assume "\<exists>new. snd bk = snd (s_books s) @ new \<and> (\<forall>x\<in>set new. e_date x = s_cur s)"
  then obtain new where "snd bk = snd (s_books s) @ new" "\<forall>x\<in>set new. e_date x = s_cur s"
    by blast
  then show "\<exists>new. snd (post a (s_cur s) d bk) = snd (s_books s) @ new \<and>
      (\<forall>x\<in>set new. e_date x = s_cur s)"
    by (intro exI [of _ "new @ [print_transaction (fst bk + a) a (s_cur s) d]"])
       (simp add: post_def Let_def print_transaction_def)
qed simp

lemma sim_iter_entries_dated:
  "\<exists>new. snd (s_books ((sim_step ^^ k) s)) = snd (s_books s) @ new \<and>
     (\<forall>x\<in>set new. \<exists>j<k. e_date x = (advance_date ^^ j) (s_cur s))"
proof (induction k)
  case 0
  show ?case by simp
next
  case (Suc k)
  then obtain new where new: "snd (s_books ((sim_step ^^ k) s)) = snd (s_books s) @ new"
    "\<forall>x\<in>set new. \<exists>j<k. e_date x = (advance_date ^^ j) (s_cur s)"
    by blast
  obtain new' where new': "snd (s_books (sim_step ((sim_step ^^ k) s))) =
      snd (s_books ((sim_step ^^ k) s)) @ new'"
    "\<forall>x\<in>set new'. e_date x = s_cur ((sim_step ^^ k) s)"
    using sim_step_entries_dated by blast
  show ?case
  proof (intro exI conjI)
    show "snd (s_books ((sim_step ^^ Suc k) s)) = snd (s_books s) @ (new @ new')"
      using new new' by simp
    show "\<forall>x\<in>set (new @ new'). \<exists>j<Suc k. e_date x = (advance_date ^^ j) (s_cur s)"
      using new(2) new'(2) by (auto simp: sim_iter_cur less_Suc_eq)
  qed
qed

lemma day_work_counters_ok:
  assumes "counters_ok (s_reg s)"
  shows "counters_ok (s_reg (day_work s))"
proof -
  let ?Q = "\<lambda>l. unat (i_counter l) < interval_period (i_interval l)"
  have "list_all ?Q (fst (walk_list (interval_visit (s_cur s)) (intervals (s_reg s)) bk))" for bk
  proof (rule walk_list_node_inv)
    show "?Q (fst (interval_visit (s_cur s) l bk'))" if "?Q l" for l bk'
    proof -
      have "unat (i_counter (fst (interval_visit (s_cur s) l bk'))) <
          interval_period (i_interval (fst (interval_visit (s_cur s) l bk')))"
        using interval_visit_counter_inv [OF that] by blast
      then show ?thesis by simp
    qed
    show "list_all ?Q (intervals (s_reg s))"
      using assms by (simp add: counters_ok_def)
  qed
  then show ?thesis
    by (simp add: day_work_def Let_def split_beta counters_ok_def add_in_all_interval_def)
qed

lemma sim_step_reg: "s_reg (sim_step s) = s_reg (day_work s)"
  by (simp add: sim_step_def Let_def)


section \<open>Properties of the day loop\<close>

text \<open>Claim C1. From a Begin date whose month is in 1..12 (the precondition of the
  table lookup in \<open>AdvanceDate\<close>) to any valid End date, the day loop stops, after
  exactly \<open>loop_length\<close> iterations: one for Begin, then one per day until the
  advanced date equals End.\<close>

theorem sim_loop_terminates:
  assumes "date_in_range (s_cur s)" "valid_date e"
  shows "sim_loop e s = Some ((sim_step ^^ loop_length (s_cur s) e) s)"
  using assms by (rule sim_loop_loop_length)

theorem sim_loop_terminates_witness:
  "sim_loop \<lparr>month = 1, day = 3, year = 2020\<rparr>
     (init_state \<lparr>onces = [], intervals = [], monthlies = [], bimonthlies = []\<rparr>
       \<lparr>month = 1, day = 1, year = 2020\<rparr>) =
   Some ((sim_step ^^ 2) (init_state \<lparr>onces = [], intervals = [], monthlies = [], bimonthlies = []\<rparr>
       \<lparr>month = 1, day = 1, year = 2020\<rparr>))"
proof -
  let ?s = "init_state \<lparr>onces = [], intervals = [], monthlies = [], bimonthlies = []\<rparr>
       \<lparr>month = 1, day = 1, year = 2020\<rparr>"
  have h: "date_in_range (s_cur ?s)" "valid_date \<lparr>month = 1, day = 3, year = 2020\<rparr>"
    by (simp_all add: init_state_def date_in_range_def valid_date_def calendar_simps)
  have n: "loop_length (s_cur ?s) \<lparr>month = 1, day = 3, year = 2020\<rparr> = 2"
    by (simp add: init_state_def loop_length_def advance_date_def calendar_simps days_until_def
        day_number_def days_before_month_1 cycle_days_def days_before_year_def)
  show ?thesis
    using sim_loop_terminates [OF h] n by simp
qed

text \<open>Claim C2. If the End date is not a valid calendar date (for example 02.30.2020,
  or a month outside 1..12, which the date parser accepts), the advanced date never
  equals it and the day loop never stops.\<close>

theorem sim_loop_invalid_end_diverges:
  assumes "date_in_range (s_cur s)" "\<not> valid_date e"
  shows "sim_loop e s = None"
proof (cases "sim_loop e s")
  case (Some r)
  with sim_loop_result [OF Some assms(1)] assms(2) show ?thesis by auto
qed simp

theorem sim_loop_invalid_end_diverges_witness:
  "sim_loop \<lparr>month = 2, day = 30, year = 2020\<rparr>
     (init_state \<lparr>onces = [], intervals = [], monthlies = [], bimonthlies = []\<rparr>
       \<lparr>month = 1, day = 1, year = 2020\<rparr>) = None"
  by (rule sim_loop_invalid_end_diverges)
     (simp_all add: init_state_def date_in_range_def valid_date_def calendar_simps is_leap_def)

text \<open>Claim C3. The End date's own transactions are never posted: when Begin differs
  from End, the loop stops and no ledger line it writes is dated End.\<close>

theorem sim_loop_end_day_not_processed:
  assumes "date_in_range (s_cur s)" "valid_date e" "s_cur s \<noteq> e"
  shows "\<exists>r. sim_loop e s = Some r \<and>
    (\<exists>new. snd (s_books r) = snd (s_books s) @ new \<and> (\<forall>x\<in>set new. e_date x \<noteq> e))"
proof -
  let ?n = "loop_length (s_cur s) e"
  note hits = loop_length_hits [OF assms(1,2)]
  obtain new where new: "snd (s_books ((sim_step ^^ ?n) s)) = snd (s_books s) @ new"
    "\<forall>x\<in>set new. \<exists>j<?n. e_date x = (advance_date ^^ j) (s_cur s)"
    using sim_iter_entries_dated [of ?n s] by blast
  have "e_date x \<noteq> e" if "x \<in> set new" for x
  proof -
    from bspec [OF new(2) that] obtain j
      where j: "j < ?n" "e_date x = (advance_date ^^ j) (s_cur s)"
      by (elim exE conjE)
    show ?thesis
    proof (cases "j = 0")
      case True
      with j assms(3) show ?thesis by simp
    next
      case False
      have early: "\<forall>j. 0 < j \<and> j < ?n \<longrightarrow> (advance_date ^^ j) (s_cur s) \<noteq> e"
        using hits by (elim conjE)
      from False j(1) early have "(advance_date ^^ j) (s_cur s) \<noteq> e"
        by simp
      with j(2) show ?thesis by simp
    qed
  qed
  then show ?thesis
    using new(1) sim_loop_loop_length [OF assms(1,2)]
    by (intro exI [of _ "(sim_step ^^ ?n) s"] conjI exI [of _ new]) simp_all
qed

theorem sim_loop_end_day_not_processed_witness:
  "\<exists>r. sim_loop \<lparr>month = 1, day = 3, year = 2020\<rparr>
     (init_state \<lparr>onces = [\<lparr>o_start = \<lparr>month = 1, day = 3, year = 2020\<rparr>, o_amount = 1000,
        o_descr = ''Deposit''\<rparr>], intervals = [], monthlies = [], bimonthlies = []\<rparr>
       \<lparr>month = 1, day = 1, year = 2020\<rparr>) = Some r \<and>
     (\<exists>new. snd (s_books r) = [] @ new \<and> (\<forall>x\<in>set new. e_date x \<noteq> \<lparr>month = 1, day = 3, year = 2020\<rparr>))"
  using sim_loop_end_day_not_processed [of "init_state \<lparr>onces = [\<lparr>o_start = \<lparr>month = 1, day = 3, year = 2020\<rparr>,
      o_amount = 1000, o_descr = ''Deposit''\<rparr>], intervals = [], monthlies = [], bimonthlies = []\<rparr>
      \<lparr>month = 1, day = 1, year = 2020\<rparr>" "\<lparr>month = 1, day = 3, year = 2020\<rparr>"]
  by (simp add: init_state_def date_in_range_def valid_date_def calendar_simps)



text \<open>Claim C6. In every state of the simulation each interval transaction's
  \<open>Counter\<close> stays below its period (\<open>Interval\<close>, or 65536 for
  \<open>Interval = 0\<close>), given that it starts there, as the loader's \<open>Counter = 0\<close>
  does.\<close>

theorem sim_iter_counters_below_period:
  assumes "counters_ok (s_reg s)"
  shows "counters_ok (s_reg ((sim_step ^^ k) s))"
  using assms by (induction k) (simp_all add: sim_step_reg day_work_counters_ok)

theorem sim_iter_counters_below_period_witness:
  "counters_ok (s_reg ((sim_step ^^ 400) (init_state \<lparr>onces = [],
     intervals = [\<lparr>i_start = \<lparr>month = 9, day = 23, year = 2002\<rparr>, i_interval = 180, i_started = False,
       i_counter = 0, i_amount = -8000, i_descr = ''CarService''\<rparr>], monthlies = [], bimonthlies = []\<rparr>
     \<lparr>month = 9, day = 19, year = 2002\<rparr>)))"
  by (rule sim_iter_counters_below_period)
     (simp add: init_state_def counters_ok_def interval_period_def)

text \<open>Claim C10. When Begin equals End the loop does not stop at once: the test comes
  after the advance, so it runs through the whole 65536-year cycle of the 16-bit year,
  23937024 iterations, before the date equals End again.\<close>

theorem sim_loop_begin_equals_end_full_cycle:
  assumes "valid_date (s_cur s)"
  shows "sim_loop (s_cur s) s = Some ((sim_step ^^ cycle_days) s) \<and> cycle_days = 23937024"
proof
  let ?b = "s_cur s" and ?N = "cycle_days"
  have lt: "day_number ?b < ?N" by (rule day_number_lt_cycle [OF assms])
  note md = mod_distance [OF lt lt]
  have k: "(day_number ?b + ?N - day_number ?b - 1) mod ?N + 1 = ?N"
    using cycle_days_pos by (simp add: Suc_diff_1)
  show "sim_loop ?b s = Some ((sim_step ^^ ?N) s)"
  proof (rule sim_loop_iter)
    show "0 < ?N" by (rule cycle_days_pos)
    have "(advance_date ^^ ?N) ?b = ?b"
    proof (rule valid_date_eqI)
      show "valid_date ((advance_date ^^ ?N) ?b)" "valid_date ?b"
        using advance_iter [OF assms, of ?N] assms by simp_all
      show "day_number ((advance_date ^^ ?N) ?b) = day_number ?b"
        using advance_iter [OF assms, of ?N] lt by simp
    qed
    then show "s_cur ((sim_step ^^ ?N) s) = ?b"
      by (simp add: sim_iter_cur)
    show "\<forall>j. 0 < j \<and> j < ?N \<longrightarrow> s_cur ((sim_step ^^ j) s) \<noteq> ?b"
    proof (intro allI impI)
      fix j
      assume j: "0 < j \<and> j < ?N"
      then have "(day_number ?b + j) mod ?N \<noteq> day_number ?b"
        using md(4) [of j] k by simp
      then show "s_cur ((sim_step ^^ j) s) \<noteq> ?b"
        using advance_iter [OF assms, of j] by (auto simp: sim_iter_cur)
    qed
  qed
  show "?N = 23937024"
    by (simp add: cycle_days_def days_before_year_def)
qed

theorem sim_loop_begin_equals_end_full_cycle_witness:
  "sim_loop \<lparr>month = 1, day = 1, year = 2020\<rparr>
     (init_state \<lparr>onces = [], intervals = [], monthlies = [], bimonthlies = []\<rparr>
       \<lparr>month = 1, day = 1, year = 2020\<rparr>) =
   Some ((sim_step ^^ 23937024) (init_state \<lparr>onces = [], intervals = [], monthlies = [], bimonthlies = []\<rparr>
       \<lparr>month = 1, day = 1, year = 2020\<rparr>))"
  using sim_loop_begin_equals_end_full_cycle [of "init_state \<lparr>onces = [], intervals = [], monthlies = [],
      bimonthlies = []\<rparr> \<lparr>month = 1, day = 1, year = 2020\<rparr>"]
  by (simp add: init_state_def valid_date_def calendar_simps)


end
