(* ===== verification/Parse.thy ===== *)
theory Parse
  imports Calendar
begin

text \<open>
  The three token parsers of BillIntervals.cpp: \<open>StringToNums\<close> (dates
  \<open>MM.DD.YYYY\<close>, lines 180-207), \<open>StringToNumber\<close> (the interval's day count,
  lines 209-229) and \<open>StringToDollars\<close> (amounts \<open>[-]d.cc\<close>, lines 231-287), with
  the conversion of a parsed amount to cents (line 375). Each reads a
  \<open>char line[100]\<close> that \<open>ifstream >>\<close> filled with a token and a terminating NUL;
  the bytes after the NUL are left over from earlier tokens. A buffer is the list of its
  bytes (\<open>buf_at\<close> reads one, NUL past the list's end); the loader passes
  \<open>cstr tok\<close>, and the lemmas show that what follows the NUL never changes a result.
  A C return value of -1 is \<open>None\<close>; the reference parameters filled on success are
  the value under \<open>Some\<close>. The printers \<open>format_date\<close>, \<open>dec_string\<close> and
  \<open>format_amount\<close> are not in the program: they write the token the specification
  describes, and the round-trip lemmas relate them to the parsers.
\<close>
section \<open>Bytes and buffers\<close>

definition nul :: char where
  "nul = CHR 0x00"

definition buf_at :: "char list \<Rightarrow> nat \<Rightarrow> char" where
  "buf_at buf i = (if i < length buf then buf ! i else nul)"

definition cstr :: "string \<Rightarrow> char list" where
  "cstr s = s @ [nul]"

definition is_digit_char :: "char \<Rightarrow> bool" where
  "is_digit_char c \<longleftrightarrow> (48::nat) \<le> of_char c \<and> of_char c \<le> (57::nat)"

definition digit_val :: "char \<Rightarrow> int" where
  "digit_val c = int (of_char c) - 48"

section \<open>StringToNums\<close>

definition string_to_nums :: "char list \<Rightarrow> date option" where
  "string_to_nums line =
     (if \<not> is_digit_char (buf_at line 0) \<or> \<not> is_digit_char (buf_at line 1) \<or> buf_at line 2 \<noteq> CHR ''.''
         \<or> \<not> is_digit_char (buf_at line 3) \<or> \<not> is_digit_char (buf_at line 4) \<or> buf_at line 5 \<noteq> CHR ''.''
         \<or> \<not> is_digit_char (buf_at line 6) \<or> \<not> is_digit_char (buf_at line 7)
         \<or> \<not> is_digit_char (buf_at line 8) \<or> \<not> is_digit_char (buf_at line 9)
      then None
      else Some \<lparr>month = 10 * digit_val (buf_at line 0) + digit_val (buf_at line 1),
                 day = 10 * digit_val (buf_at line 3) + digit_val (buf_at line 4),
                 year = word_of_int (1000 * digit_val (buf_at line 6) + 100 * digit_val (buf_at line 7)
                          + 10 * digit_val (buf_at line 8) + digit_val (buf_at line 9))\<rparr>)"

section \<open>StringToNumber\<close>

text \<open>\<open>number = number*10 + (line[i]-48)\<close> is computed in \<open>int\<close> and stored in a
  \<open>short\<close>: 16-bit wrap-around.\<close>

fun number_digits :: "short \<Rightarrow> char list \<Rightarrow> short option" where
  "number_digits n [] = Some n"
| "number_digits n (c # cs) =
     (if is_digit_char c then number_digits (n * 10 + word_of_int (digit_val c)) cs else None)"

definition string_to_number :: "char list \<Rightarrow> short option" where
  "string_to_number line = number_digits 0 (takeWhile (\<lambda>c. c \<noteq> nul) line)"

section \<open>StringToDollars\<close>

text \<open>The search for the dot: \<open>while (i < 100 && !done)\<close>, reading past the NUL
  into the rest of the buffer.\<close>

function find_dot :: "char list \<Rightarrow> nat \<Rightarrow> nat option" where
  "find_dot line i =
     (if i < 100 then (if buf_at line i = CHR ''.'' then Some i else find_dot line (Suc i)) else None)"
  by pat_completeness auto
termination
  by (relation "measure (\<lambda>(line, i). 100 - i)") auto

function dollar_digits :: "char list \<Rightarrow> nat \<Rightarrow> nat \<Rightarrow> short \<Rightarrow> short option" where
  "dollar_digits line i dotpos acc =
     (if i < dotpos then
        (if is_digit_char (buf_at line i)
         then dollar_digits line (Suc i) dotpos (acc * 10 + word_of_int (digit_val (buf_at line i)))
         else None)
      else Some acc)"
  by pat_completeness auto
termination
  by (relation "measure (\<lambda>(line, i, dotpos, acc). dotpos - i)") auto

definition string_to_dollars :: "char list \<Rightarrow> (bool \<times> short \<times> short) option" where
  "string_to_dollars line =
     (let neg = (buf_at line 0 = CHR ''-'') in
      case find_dot line 0 of
        None \<Rightarrow> None
      | Some dotpos \<Rightarrow>
          (case dollar_digits line (if neg then 1 else 0) dotpos 0 of
             None \<Rightarrow> None
           | Some dollars \<Rightarrow>
               (if \<not> is_digit_char (buf_at line (dotpos + 1)) \<or> \<not> is_digit_char (buf_at line (dotpos + 2))
                   \<or> buf_at line (dotpos + 3) \<noteq> nul
                then None
                else Some (neg, dollars,
                  word_of_int (10 * digit_val (buf_at line (dotpos + 1)) + digit_val (buf_at line (dotpos + 2)))))))"

text \<open>\<open>(1.0-2.0*(Minus==1))*((double)Dollars+((double)Cents/100.0))\<close>, in cents.\<close>

definition amount_cents :: "bool \<Rightarrow> short \<Rightarrow> short \<Rightarrow> int" where
  "amount_cents neg dollars cents = (if neg then -1 else 1) * (sint dollars * 100 + sint cents)"

section \<open>Printers of the specified token formats\<close>

definition digit_char :: "nat \<Rightarrow> char" where
  "digit_char n = ''0123456789'' ! n"

definition format_date :: "nat \<Rightarrow> nat \<Rightarrow> nat \<Rightarrow> string" where
  "format_date m d y =
     [digit_char (m div 10), digit_char (m mod 10), CHR ''.'',
      digit_char (d div 10), digit_char (d mod 10), CHR ''.'',
      digit_char (y div 1000), digit_char (y div 100 mod 10), digit_char (y div 10 mod 10),
      digit_char (y mod 10)]"
fun dec_string :: "nat \<Rightarrow> string" where
  "dec_string n = (if n < 10 then [digit_char n] else dec_string (n div 10) @ [digit_char (n mod 10)])"

definition format_amount :: "bool \<Rightarrow> nat \<Rightarrow> nat \<Rightarrow> string" where
  "format_amount neg n c =
     (if neg then ''-'' else []) @ dec_string n @ CHR ''.'' # [digit_char (c div 10), digit_char (c mod 10)]"

declare find_dot.simps [simp del] dollar_digits.simps [simp del] dec_string.simps [simp del]

lemmas parse_eval = string_to_nums_def string_to_number_def string_to_dollars_def cstr_def buf_at_def
  is_digit_char_def digit_val_def nul_def find_dot.simps dollar_digits.simps amount_cents_def

section \<open>Buffers: the bytes after the NUL\<close>


lemma nul_not_digit [simp]: "\<not> is_digit_char nul"
  by (simp add: is_digit_char_def nul_def)

lemma nul_ne_chars [simp]: "nul \<noteq> CHR ''.''" "nul \<noteq> CHR ''-''" "CHR ''.'' \<noteq> nul" "CHR ''-'' \<noteq> nul"
  by (simp_all add: nul_def)

lemma buf_at_token:
  assumes "i < length tok"
  shows "buf_at (tok @ nul # g) i = tok ! i"
  using assms by (simp add: buf_at_def nth_append)

lemma buf_at_token_end [simp]: "buf_at (tok @ nul # g) (length tok) = nul"
  by (simp add: buf_at_def)

lemma buf_at_cstr_beyond:
  assumes "length tok \<le> i"
  shows "buf_at (cstr tok) i = nul"
  using assms by (cases "i = length tok") (simp_all add: buf_at_def cstr_def nth_append)

lemma buf_agree_upto:
  assumes "i \<le> length tok"
  shows "buf_at (tok @ nul # g) i = buf_at (cstr tok) i"
  using assms by (cases "i = length tok") (simp_all add: cstr_def buf_at_token)

lemma string_to_nums_nul:
  assumes "j < 10" "buf_at line j = nul"
  shows "string_to_nums line = None"
proof -
  have "j = 0 \<or> j = 1 \<or> j = 2 \<or> j = 3 \<or> j = 4 \<or> j = 5 \<or> j = 6 \<or> j = 7 \<or> j = 8 \<or> j = 9"
    using assms(1) by arith
  then show ?thesis
    using assms(2) by (auto simp: string_to_nums_def)
qed

lemma string_to_nums_stale:
  assumes "nul \<notin> set tok"
  shows "string_to_nums (tok @ nul # g) = string_to_nums (cstr tok)"
proof (cases "10 \<le> length tok")
  case True
  then have "buf_at (tok @ nul # g) i = buf_at (cstr tok) i" if "i < 10" for i
    using that by (intro buf_agree_upto) simp
  then show ?thesis
    by (simp add: string_to_nums_def)
next
  case False
  then have "string_to_nums (tok @ nul # g) = None" "string_to_nums (cstr tok) = None"
    using buf_agree_upto [of "length tok" tok g]
    by (auto intro: string_to_nums_nul [of "length tok"])
  then show ?thesis by simp
qed

lemma string_to_number_stale:
  assumes "nul \<notin> set tok"
  shows "string_to_number (tok @ nul # g) = string_to_number (cstr tok)"
proof -
  have "takeWhile (\<lambda>c. c \<noteq> nul) tok = tok"
    using assms by (auto simp: takeWhile_eq_all_conv)
  then show ?thesis
    using assms by (simp add: string_to_number_def cstr_def takeWhile_append2)
qed

lemma find_dot_Some:
  "find_dot line i = Some p \<longleftrightarrow>
     i \<le> p \<and> p < 100 \<and> buf_at line p = CHR ''.'' \<and> (\<forall>j. i \<le> j \<and> j < p \<longrightarrow> buf_at line j \<noteq> CHR ''.'')"
proof (induction line i rule: find_dot.induct)
  case (1 line i)
  show ?case
  proof (cases "i < 100")
    case True
    show ?thesis
    proof (cases "buf_at line i = CHR ''.''")
      case True
      with \<open>i < 100\<close> show ?thesis
        by (auto simp: find_dot.simps [of line i] le_less)
    next
      case False
      have eq: "find_dot line i = find_dot line (Suc i)"
        using \<open>i < 100\<close> False by (simp add: find_dot.simps [of line i])
      have split: "(\<forall>j. i \<le> j \<and> j < p \<longrightarrow> buf_at line j \<noteq> CHR ''.'') \<longleftrightarrow>
          (\<forall>j. Suc i \<le> j \<and> j < p \<longrightarrow> buf_at line j \<noteq> CHR ''.'')"
      proof
        assume "\<forall>j. Suc i \<le> j \<and> j < p \<longrightarrow> buf_at line j \<noteq> CHR ''.''"
        with False show "\<forall>j. i \<le> j \<and> j < p \<longrightarrow> buf_at line j \<noteq> CHR ''.''"
          by (metis Suc_leI le_neq_implies_less)
      qed simp
      have ileq: "(i \<le> p \<and> buf_at line p = CHR ''.'') \<longleftrightarrow> (Suc i \<le> p \<and> buf_at line p = CHR ''.'')"
        using False by (auto simp: Suc_le_eq le_less)
      have IH: "find_dot line (Suc i) = Some p \<longleftrightarrow>
          Suc i \<le> p \<and> p < 100 \<and> buf_at line p = CHR ''.'' \<and>
          (\<forall>j. Suc i \<le> j \<and> j < p \<longrightarrow> buf_at line j \<noteq> CHR ''.'')"
        by (rule "1.IH" [OF \<open>i < 100\<close> False])
      show ?thesis
        unfolding eq IH split using ileq by blast
    qed
  next
    case False
    then show ?thesis
      by (simp add: find_dot.simps [of line i])
  qed
qed

lemma dollar_digits_agree:
  assumes "\<forall>j. i \<le> j \<and> j < q \<longrightarrow> buf_at b1 j = buf_at b2 j"
  shows "dollar_digits b1 i q acc = dollar_digits b2 i q acc"
  using assms
proof (induction b1 i q acc rule: dollar_digits.induct)
  case (1 line i dotpos acc)
  then show ?case
    by (simp add: dollar_digits.simps [of line i dotpos acc] dollar_digits.simps [of b2 i dotpos acc])
qed

lemma dollar_digits_bad:
  assumes "i \<le> j" "j < q" "\<not> is_digit_char (buf_at b j)"
  shows "dollar_digits b i q acc = None"
  using assms
proof (induction b i q acc rule: dollar_digits.induct)
  case (1 line i dotpos acc)
  show ?case
  proof (cases "j = i")
    case True
    with "1.prems" show ?thesis by (simp add: dollar_digits.simps [of line i dotpos acc])
  next
    case False
    with "1.prems" "1.IH" show ?thesis
      by (simp add: dollar_digits.simps [of line i dotpos acc])
  qed
qed

lemma string_to_dollars_stale:
  assumes tok: "nul \<notin> set tok" "length tok < 100"
  shows "string_to_dollars (tok @ nul # g) = string_to_dollars (cstr tok)"
proof -
  let ?b1 = "tok @ nul # g" and ?b2 = "cstr tok" and ?n = "length tok"
  have agree: "buf_at ?b1 i = buf_at ?b2 i" if "i \<le> ?n" for i
    using that by (rule buf_agree_upto)
  have beyond: "buf_at ?b2 i = nul" if "?n \<le> i" for i
    using that by (rule buf_at_cstr_beyond)
  have end1: "buf_at ?b1 ?n = nul" by simp
  let ?neg = "buf_at ?b2 0 = CHR ''-''"
  have neg: "(buf_at ?b1 0 = CHR ''-'') = ?neg" using agree [of 0] by simp
  have start: "(if ?neg then 1 else 0) \<le> ?n"
    using beyond [of 0] by (cases tok) auto
  let ?T = "\<lambda>b p. \<not> is_digit_char (buf_at b (p + 1)) \<or> \<not> is_digit_char (buf_at b (p + 2))
     \<or> buf_at b (p + 3) \<noteq> nul"
  let ?V = "\<lambda>b p. word_of_int (10 * digit_val (buf_at b (p + 1)) + digit_val (buf_at b (p + 2))) :: short"
  have tail: "?T ?b1 p = ?T ?b2 p \<and> (\<not> ?T ?b2 p \<longrightarrow> ?V ?b1 p = ?V ?b2 p)" if "p < ?n" for p
  proof (cases "p + 3 \<le> ?n")
    case True
    then show ?thesis using agree [of "p + 1"] agree [of "p + 2"] agree [of "p + 3"] by simp
  next
    case False
    with that have cases: "?n = p + 1 \<or> ?n = p + 2" by arith
    have n1: "buf_at ?b1 ?n = nul" "buf_at ?b2 ?n = nul"
      using end1 beyond [of ?n] by simp_all
    from cases have "?T ?b1 p \<and> ?T ?b2 p"
    proof (elim disjE)
      assume "?n = p + 1"
      then have "buf_at ?b1 (p + 1) = nul" "buf_at ?b2 (p + 1) = nul"
        using n1 by simp_all
      then show ?thesis by simp
    next
      assume "?n = p + 2"
      then have "buf_at ?b1 (p + 2) = nul" "buf_at ?b2 (p + 2) = nul"
        using n1 by simp_all
      then show ?thesis by simp
    qed
    then show ?thesis by simp
  qed
  show ?thesis
  proof (cases "find_dot ?b2 0")
    case (Some p)
    then have p: "p < 100" "buf_at ?b2 p = CHR ''.''"
      "\<forall>j. j < p \<longrightarrow> buf_at ?b2 j \<noteq> CHR ''.''"
      by (simp_all add: find_dot_Some)
    have pn: "p < ?n"
      using p(2) beyond [of p] by (cases "?n \<le> p") auto
    have "find_dot ?b1 0 = Some p"
      using p pn agree by (auto simp: find_dot_Some)
    moreover have "dollar_digits ?b1 (if ?neg then 1 else 0) p 0 = dollar_digits ?b2 (if ?neg then 1 else 0) p 0"
      using pn agree by (intro dollar_digits_agree) auto
    ultimately show ?thesis
      using Some tail [OF pn] neg
      by (simp add: string_to_dollars_def Let_def split: option.splits)
  next
    case None
    then have none2: "string_to_dollars ?b2 = None"
      by (simp add: string_to_dollars_def)
    have "string_to_dollars ?b1 = None"
    proof (cases "find_dot ?b1 0")
      case (Some q)
      then have q: "buf_at ?b1 q = CHR ''.''" "q < 100" "\<forall>j. j < q \<longrightarrow> buf_at ?b1 j \<noteq> CHR ''.''"
        by (simp_all add: find_dot_Some)
      have "\<not> q < ?n"
      proof
        assume "q < ?n"
        then have "find_dot ?b2 0 = Some q"
          using q agree by (auto simp: find_dot_Some)
        with None show False by simp
      qed
      moreover have "q \<noteq> ?n" using q(1) end1 by auto
      ultimately have "?n < q" by simp
      then have "dollar_digits ?b1 (if ?neg then 1 else 0) q 0 = None"
        using start end1 by (intro dollar_digits_bad [of _ ?n]) auto
      with Some neg show ?thesis
        by (simp add: string_to_dollars_def Let_def)
    qed (simp add: string_to_dollars_def)
    with none2 show ?thesis by simp
  qed
qed

lemma of_char_digit_char: "n < 10 \<Longrightarrow> of_char (digit_char n) = 48 + n"
proof -
  assume "n < 10"
  then have "n = 0 \<or> n = 1 \<or> n = 2 \<or> n = 3 \<or> n = 4 \<or> n = 5 \<or> n = 6 \<or> n = 7 \<or> n = 8 \<or> n = 9"
    by arith
  then show ?thesis by (auto simp: digit_char_def)
qed

lemma digit_char_of_char: "n < 10 \<Longrightarrow> of_char c = 48 + n \<Longrightarrow> digit_char n = c"
  using of_char_digit_char [of n] by (metis of_char_eq_iff)
lemma digit_char_props:
  assumes "n < 10"
  shows "is_digit_char (digit_char n)" "digit_val (digit_char n) = int n"
    "digit_char n \<noteq> nul" "digit_char n \<noteq> CHR ''.''"
proof -
  have o: "of_char (digit_char n) = (48 + n :: nat)"
    using assms by (rule of_char_digit_char)
  show "is_digit_char (digit_char n)" "digit_val (digit_char n) = int n"
    using o assms by (simp_all add: is_digit_char_def digit_val_def)
  show "digit_char n \<noteq> nul" "digit_char n \<noteq> CHR ''.''"
    using o by (auto simp: nul_def dest: arg_cong [where f = "of_char :: char \<Rightarrow> nat"])
qed
lemma buf_at_cstr:
  "i < length s \<Longrightarrow> buf_at (cstr s) i = s ! i"
  by (simp add: buf_at_def cstr_def nth_append)

section \<open>Date tokens\<close>

text \<open>Claim C20. A date printed in the specified \<open>MM.DD.YYYY\<close> form parses back to the
  same month, day and year, whatever follows the tenth character: \<open>StringToNums\<close>
  checks ten positions and never that the token ends there.\<close>

theorem string_to_nums_format_roundtrip:
  assumes "m < 100" "d < 100" "y < 10000"
  shows "string_to_nums (cstr (format_date m d y @ rest)) =
    Some \<lparr>month = int m, day = int d, year = of_nat y\<rparr>"
proof -
  let ?s = "format_date m d y @ rest"
  have len: "10 \<le> length ?s" by (simp add: format_date_def)
  have lf: "length (format_date m d y) = 10" by (simp add: format_date_def)
  have at: "buf_at (cstr ?s) i = format_date m d y ! i" if "i < 10" for i
    using that lf by (simp add: buf_at_cstr nth_append)
  have b: "buf_at (cstr ?s) 0 = digit_char (m div 10)" "buf_at (cstr ?s) 1 = digit_char (m mod 10)"
    "buf_at (cstr ?s) 2 = CHR ''.''"
    "buf_at (cstr ?s) 3 = digit_char (d div 10)" "buf_at (cstr ?s) 4 = digit_char (d mod 10)"
    "buf_at (cstr ?s) 5 = CHR ''.''"
    "buf_at (cstr ?s) 6 = digit_char (y div 1000)" "buf_at (cstr ?s) 7 = digit_char (y div 100 mod 10)"
    "buf_at (cstr ?s) 8 = digit_char (y div 10 mod 10)" "buf_at (cstr ?s) 9 = digit_char (y mod 10)"
    using at [of 0] at [of 1] at [of 2] at [of 3] at [of 4] at [of 5] at [of 6] at [of 7]
      at [of 8] at [of 9] by (simp_all add: format_date_def)
  have dg: "m div 10 < 10" "m mod 10 < 10" "d div 10 < 10" "d mod 10 < 10" "y div 1000 < 10"
    "y div 100 mod 10 < 10" "y div 10 mod 10 < 10" "y mod 10 < 10"
    using assms by simp_all
  have "10 * int (m div 10) + int (m mod 10) = int m" "10 * int (d div 10) + int (d mod 10) = int d"
    by (rule int_decimal2)+
  moreover have "int (1000 * (y div 1000) + 100 * (y div 100 mod 10) + 10 * (y div 10 mod 10) + y mod 10) = int y"
    using decimal4 [of y] by simp
  ultimately show ?thesis
    using dg by (simp only: string_to_nums_def b) (simp add: digit_char_props)
qed




lemma digit_val_nat:
  assumes "is_digit_char c"
  shows "digit_val c = int (nat (digit_val c))" "nat (digit_val c) < 10" "digit_char (nat (digit_val c)) = c"
proof -
  have o: "(48::nat) \<le> of_char c" "of_char c \<le> (57::nat)" using assms by (simp_all add: is_digit_char_def)
  then show "digit_val c = int (nat (digit_val c))" "nat (digit_val c) < 10"
    by (simp_all add: digit_val_def)
  have "of_char c = 48 + nat (digit_val c)" using o by (simp add: digit_val_def)
  then show "digit_char (nat (digit_val c)) = c"
    using \<open>nat (digit_val c) < 10\<close> by (intro digit_char_of_char)
qed





lemma dec_string_digits: "c \<in> set (dec_string n) \<Longrightarrow> \<exists>k < 10. c = digit_char k"
proof (induction n rule: dec_string.induct)
  case (1 n)
  then show ?case
    by (cases "n < 10") (auto simp: dec_string.simps [of n] intro: exI [where x = "n mod 10"])
qed

lemma dec_string_is_digit: "c \<in> set (dec_string n) \<Longrightarrow> is_digit_char c"
  using dec_string_digits digit_char_props(1) by blast

lemma dec_string_not_dot: "c \<in> set (dec_string n) \<Longrightarrow> c \<noteq> CHR ''.''"
  by (drule dec_string_digits) (auto simp: digit_char_props)

lemma number_digits_append:
  "number_digits acc (xs @ ys) = Option.bind (number_digits acc xs) (\<lambda>v. number_digits v ys)"
  by (induction xs arbitrary: acc) simp_all

lemma number_digits_dec_string: "number_digits 0 (dec_string n) = Some (word_of_nat n)"
proof (induction n rule: dec_string.induct)
  case (1 n)
  show ?case
  proof (cases "n < 10")
    case True
    then show ?thesis
      by (simp add: dec_string.simps [of n] digit_char_props)
  next
    case False
    have "(word_of_nat n :: short) = word_of_nat (n div 10) * 10 + word_of_nat (n mod 10)"
      by (metis div_mult_mod_eq of_nat_add of_nat_mult of_nat_numeral)
    with False "1.IH" show ?thesis
      by (simp add: dec_string.simps [of n] number_digits_append digit_char_props)
  qed
qed

lemma dollar_digits_number_digits:
  assumes "\<forall>j < length ds. buf_at line (i + j) = ds ! j"
  shows "dollar_digits line i (i + length ds) acc = number_digits acc ds"
  using assms
proof (induction ds arbitrary: i acc)
  case Nil
  then show ?case by (simp add: dollar_digits.simps)
next
  case (Cons c ds)
  have c: "buf_at line i = c" using Cons.prems by (metis add_0_right length_Cons nth_Cons_0 zero_less_Suc)
  have rest: "\<forall>j < length ds. buf_at line (Suc i + j) = ds ! j"
    using Cons.prems by auto
  show ?case
    using Cons.IH [OF rest] c
    by (simp add: dollar_digits.simps [of line i "Suc (i + length ds)" acc])
qed

lemma digit_not_specials: "is_digit_char c \<Longrightarrow> c \<noteq> CHR ''.''" "is_digit_char c \<Longrightarrow> c \<noteq> CHR ''-''"
  by (auto simp: is_digit_char_def)

lemma string_to_dollars_digits:
  assumes ds: "\<forall>c \<in> set ds. is_digit_char c" and ab: "is_digit_char a" "is_digit_char b"
    and len: "length ds < 96"
  shows "string_to_dollars (cstr ((if neg then ''-'' else []) @ ds @ CHR ''.'' # [a, b])) =
    map_option (\<lambda>v. (neg, v, word_of_int (10 * digit_val a + digit_val b))) (number_digits 0 ds)"
proof -
  define sg where "sg = (if neg then ''-'' else [])"
  define tok where "tok = sg @ ds @ CHR ''.'' # [a, b]"
  define p where "p = length sg + length ds"
  have lsg: "length sg = (if neg then 1 else 0)" by (simp add: sg_def)
  have ltok: "length tok = p + 3" by (simp add: tok_def p_def)
  have at: "buf_at (cstr tok) j = tok ! j" if "j < p + 3" for j
    using that ltok by (simp add: buf_at_cstr)
  have tok_sg: "tok ! j = CHR ''-''" if "j < length sg" for j
    using that by (simp add: tok_def nth_append sg_def split: if_splits)
  have tok_ds: "tok ! (length sg + j) = ds ! j" if "j < length ds" for j
    using that by (simp add: tok_def nth_append)
  have tok_p: "tok ! p = CHR ''.''" "tok ! (p + 1) = a" "tok ! (p + 2) = b"
    by (simp_all add: tok_def p_def nth_append)
  have nodot: "tok ! j \<noteq> CHR ''.''" if "j < p" for j
  proof (cases "j < length sg")
    case True
    then show ?thesis by (simp add: tok_sg)
  next
    case False
    define k where "k = j - length sg"
    have k: "j = length sg + k" "k < length ds"
      using False that by (simp_all add: k_def p_def)
    have "is_digit_char (ds ! k)"
      using ds k(2) by simp
    then show ?thesis
      by (simp add: k(1) tok_ds [OF k(2)] digit_not_specials(1))
  qed
  have p100: "p < 100" using len lsg by (simp add: p_def)
  have fd: "find_dot (cstr tok) 0 = Some p"
    unfolding find_dot_Some using p100 tok_p(1) nodot by (simp add: at)
  have ng: "(buf_at (cstr tok) 0 = CHR ''-'') = neg"
  proof (cases neg)
    case True
    then show ?thesis using tok_sg [of 0] at [of 0] lsg by simp
  next
    case False
    then have sg0: "sg = []" by (simp add: sg_def)
    show ?thesis
    proof (cases ds)
      case Nil
      then show ?thesis using False sg0 at [of 0] tok_p(1) by (simp add: p_def)
    next
      case (Cons c cs)
      then show ?thesis using False sg0 at [of 0] ds digit_not_specials(2) by (simp add: tok_def)
    qed
  qed
  have dd: "dollar_digits (cstr tok) (if neg then 1 else 0) p 0 = number_digits 0 ds"
    unfolding p_def lsg [symmetric]
    by (rule dollar_digits_number_digits) (simp add: at p_def tok_ds)
  have tail: "buf_at (cstr tok) (p + 1) = a" "buf_at (cstr tok) (p + 2) = b"
    using tok_p at by simp_all
  have tail3: "buf_at (cstr tok) (p + 3) = nul"
    using buf_at_token_end [of tok "[]"] ltok by (simp add: cstr_def)
  have tk: "(if neg then ''-'' else []) @ ds @ CHR ''.'' # [a, b] = tok"
    by (simp add: tok_def sg_def)
  show ?thesis
    unfolding tk string_to_dollars_def Let_def ng fd option.case dd
    using ab tail tail3 by (cases "number_digits 0 ds") simp_all
qed







text \<open>Claim C22. An amount printed as an optional minus, the decimal dollars, a dot and two
  cent digits parses back to its sign, its dollars and its cents, the dollars taken modulo
  65536 because \<open>Dollars\<close> is a \<open>short\<close>.\<close>

theorem string_to_dollars_format_roundtrip:
  assumes "c < 100" "length (dec_string n) < 96"
  shows "string_to_dollars (cstr (format_amount neg n c)) = Some (neg, word_of_nat n, word_of_nat c)"
proof -
  have dg: "c div 10 < 10" "c mod 10 < 10" using assms(1) by simp_all
  have "(word_of_int (10 * int (c div 10) + int (c mod 10)) :: short) = word_of_nat c"
    by (simp only: int_decimal2) simp
  then show ?thesis
    using string_to_dollars_digits [of "dec_string n" "digit_char (c div 10)" "digit_char (c mod 10)" neg]
      assms dg dec_string_is_digit
    by (simp add: format_amount_def digit_char_props number_digits_dec_string)
qed



lemma string_to_nums_Some:
  assumes "string_to_nums line = Some dt"
  shows "\<forall>i \<in> {0, 1, 3, 4, 6, 7, 8, 9}. is_digit_char (buf_at line i)"
    "buf_at line 2 = CHR ''.''" "buf_at line 5 = CHR ''.''"
    "month dt = 10 * digit_val (buf_at line 0) + digit_val (buf_at line 1)"
    "day dt = 10 * digit_val (buf_at line 3) + digit_val (buf_at line 4)"
    "year dt = word_of_int (1000 * digit_val (buf_at line 6) + 100 * digit_val (buf_at line 7)
        + 10 * digit_val (buf_at line 8) + digit_val (buf_at line 9))"
  using assms by (auto simp: string_to_nums_def split: if_splits)

lemma string_to_nums_nonneg:
  assumes "string_to_nums line = Some dt"
  shows "0 \<le> month dt \<and> 0 \<le> day dt"
proof -
  note S = string_to_nums_Some [OF assms]
  have "0 \<le> digit_val (buf_at line i)" if "i \<in> {0, 1, 3, 4, 6, 7, 8, 9}" for i
    using digit_val_nat(1) [of "buf_at line i"] S(1) that by (metis of_nat_0_le_iff)
  then show ?thesis
    using S(4,5) by simp
qed

lemma take10_nth: "10 \<le> length xs \<Longrightarrow>
    take 10 xs = [xs ! 0, xs ! 1, xs ! 2, xs ! 3, xs ! 4, xs ! 5, xs ! 6, xs ! 7, xs ! 8, xs ! 9]"
proof -
  assume "10 \<le> length xs"
  then have "take 10 xs = map ((!) (take 10 xs)) [0..<10]"
    using map_nth [of "take 10 xs"] by simp
  then show ?thesis by (simp add: upt_rec eval_nat_numeral)
qed

text \<open>Claim C21. Conversely, a token that \<open>StringToNums\<close> accepts is, in its first
  ten characters, exactly the printed form of the date it yields.\<close>

theorem string_to_nums_format_inverse:
  assumes "string_to_nums (cstr tok) = Some dt"
  shows "format_date (nat (month dt)) (nat (day dt)) (unat (year dt)) = take 10 tok"
proof -
  let ?c = "\<lambda>i. buf_at (cstr tok) i" and ?n = "\<lambda>i. nat (digit_val (buf_at (cstr tok) i))"
  note S = string_to_nums_Some [OF assms]
  have len: "10 \<le> length tok"
  proof (rule ccontr)
    assume "\<not> 10 \<le> length tok"
    then have "string_to_nums (cstr tok) = None"
      by (intro string_to_nums_nul [of "length tok"]) (simp_all add: buf_at_cstr_beyond)
    with assms show False by simp
  qed
  have dig: "is_digit_char (?c i)" if "i \<in> {0, 1, 3, 4, 6, 7, 8, 9}" for i
    using S(1) that by blast
  have nv: "0 \<le> digit_val (?c i)" "?n i < 10" "digit_char (?n i) = ?c i"
    if "i \<in> {0, 1, 3, 4, 6, 7, 8, 9}" for i
    using digit_val_nat [OF dig [OF that]] by linarith+
  have ct: "?c i = tok ! i" if "i < 10" for i
    using that len by (simp add: buf_at_cstr)
  have m: "nat (month dt) = 10 * ?n 0 + ?n 1"
    using S(4) nv(1) [of 0] nv(1) [of 1] by (simp add: nat_add_distrib nat_mult_distrib)
  have d: "nat (day dt) = 10 * ?n 3 + ?n 4"
    using S(5) nv(1) [of 3] nv(1) [of 4] by (simp add: nat_add_distrib nat_mult_distrib)
  have yv: "1000 * ?n 6 + 100 * ?n 7 + 10 * ?n 8 + ?n 9 < 10000"
    using nv(2) [of 6] nv(2) [of 7] nv(2) [of 8] nv(2) [of 9] by simp
  have y: "unat (year dt) = 1000 * ?n 6 + 100 * ?n 7 + 10 * ?n 8 + ?n 9"
  proof -
    have "1000 * digit_val (?c 6) + 100 * digit_val (?c 7) + 10 * digit_val (?c 8) + digit_val (?c 9)
        = int (1000 * ?n 6 + 100 * ?n 7 + 10 * ?n 8 + ?n 9)"
      using nv(1) [of 6] nv(1) [of 7] nv(1) [of 8] nv(1) [of 9] by simp
    then have "year dt = word_of_nat (1000 * ?n 6 + 100 * ?n 7 + 10 * ?n 8 + ?n 9)"
      using S(6) by simp
    moreover have "1000 * ?n 6 + 100 * ?n 7 + 10 * ?n 8 + ?n 9 < 65536"
      using yv by simp
    ultimately show ?thesis
      by (simp only: unat_short_of_nat)
  qed
  have n10: "?n 0 < 10" "?n 1 < 10" "?n 3 < 10" "?n 4 < 10" "?n 6 < 10" "?n 7 < 10" "?n 8 < 10" "?n 9 < 10"
    using nv(2) by simp_all
  have fd: "format_date (nat (month dt)) (nat (day dt)) (unat (year dt)) =
      [digit_char (?n 0), digit_char (?n 1), CHR ''.'', digit_char (?n 3), digit_char (?n 4), CHR ''.'',
       digit_char (?n 6), digit_char (?n 7), digit_char (?n 8), digit_char (?n 9)]"
    unfolding format_date_def m d y using n10 by (simp only: div10_digit decimal4_digits)
  have dc: "digit_char (?n 0) = ?c 0" "digit_char (?n 1) = ?c 1" "digit_char (?n 3) = ?c 3"
    "digit_char (?n 4) = ?c 4" "digit_char (?n 6) = ?c 6" "digit_char (?n 7) = ?c 7"
    "digit_char (?n 8) = ?c 8" "digit_char (?n 9) = ?c 9"
    using nv(3) by simp_all
  have c: "?c 0 = tok ! 0" "?c 1 = tok ! 1" "?c 3 = tok ! 3" "?c 4 = tok ! 4" "?c 6 = tok ! 6"
    "?c 7 = tok ! 7" "?c 8 = tok ! 8" "?c 9 = tok ! 9" "tok ! 2 = CHR ''.''" "tok ! 5 = CHR ''.''"
    using ct S(2,3) by simp_all
  show ?thesis
    unfolding take10_nth [OF len] fd dc by (simp only: c)
qed


lemma dollar_digits_Some_digits:
  assumes "dollar_digits line i q acc = Some v" "i \<le> j" "j < q"
  shows "is_digit_char (buf_at line j)"
  using assms dollar_digits_bad [of i j q line acc] by fastforce

text \<open>Claim C23. \<open>StringToDollars\<close> accepts only tokens of the form: an optional
  minus, digits, a dot, exactly two digits and nothing after them.\<close>

theorem string_to_dollars_accepts_cents_form:
  assumes "nul \<notin> set tok" "string_to_dollars (cstr tok) = Some (neg, d, c)"
  shows "\<exists>p. length tok = p + 3 \<and> tok ! p = CHR ''.'' \<and> (neg \<longleftrightarrow> tok ! 0 = CHR ''-'')
     \<and> (\<forall>j. (if neg then 1 else 0) \<le> j \<and> j < p \<longrightarrow> is_digit_char (tok ! j))
     \<and> is_digit_char (tok ! (p + 1)) \<and> is_digit_char (tok ! (p + 2))"
proof -
  obtain p dl where fd: "find_dot (cstr tok) 0 = Some p"
    and dd: "dollar_digits (cstr tok) (if neg then 1 else 0) p 0 = Some dl"
    and t: "is_digit_char (buf_at (cstr tok) (p + 1))" "is_digit_char (buf_at (cstr tok) (p + 2))"
      "buf_at (cstr tok) (p + 3) = nul"
    and ng: "neg = (buf_at (cstr tok) 0 = CHR ''-'')"
    using assms(2) by (auto simp: string_to_dollars_def Let_def split: option.splits if_splits)
  have l2: "p + 2 < length tok"
  proof (rule ccontr)
    assume "\<not> p + 2 < length tok"
    then have "buf_at (cstr tok) (p + 2) = nul" by (simp add: buf_at_cstr_beyond)
    with t(2) show False by simp
  qed
  have l3: "\<not> p + 3 < length tok"
  proof
    assume "p + 3 < length tok"
    then have "tok ! (p + 3) = nul" using t(3) by (simp add: buf_at_cstr)
    with \<open>p + 3 < length tok\<close> assms(1) show False by (metis nth_mem)
  qed
  have at: "buf_at (cstr tok) j = tok ! j" if "j < length tok" for j
    using that by (rule buf_at_cstr)
  have dot: "buf_at (cstr tok) p = CHR ''.''" using fd by (simp add: find_dot_Some)
  show ?thesis
  proof (intro exI conjI allI impI)
    show "length tok = p + 3" using l2 l3 by simp
    show "tok ! p = CHR ''.''" using dot l2 at [of p] by simp
    have "buf_at (cstr tok) 0 = tok ! 0" using l2 by (intro at) linarith
    then show "neg = (tok ! 0 = CHR ''-'')" using ng by simp
    show "is_digit_char (tok ! (p + 1))" "is_digit_char (tok ! (p + 2))"
      using t l2 at [of "p + 1"] at [of "p + 2"] by simp_all
  next
    fix j assume j: "(if neg then 1 else 0) \<le> j \<and> j < p"
    then show "is_digit_char (tok ! j)"
      using dollar_digits_Some_digits [OF dd, of j] l2 at [of j] by simp
  qed
qed

lemma takeWhile_not_nul: "nul \<notin> set tok \<Longrightarrow> takeWhile (\<lambda>c. c \<noteq> nul) (cstr tok) = tok"
  unfolding cstr_def by (subst takeWhile_append2) auto

text \<open>Claim C26. The interval token printed in decimal parses back to its value modulo
  65536: \<open>StringToNumber\<close> accumulates into a \<open>short\<close>.\<close>

theorem string_to_number_decimal_roundtrip:
  "string_to_number (cstr (dec_string n)) = Some (word_of_nat n)"
proof -
  have "nul \<notin> set (dec_string n)"
    using dec_string_is_digit nul_not_digit by blast
  then show ?thesis
    by (simp add: string_to_number_def takeWhile_not_nul number_digits_dec_string)
qed

text \<open>Claim C24. \<open>StringToDollars\<close> accepts an amount with no dollar digits at all
  (\<open>.50\<close>, \<open>-.50\<close>), which the specification's "one or more digit characters"
  excludes: the digit loop runs from the start to the dot and is empty when the dot comes
  first.\<close>

theorem string_to_dollars_empty_dollars:
  assumes "is_digit_char a" "is_digit_char b"
  shows "string_to_dollars (cstr ((if neg then ''-'' else []) @ CHR ''.'' # [a, b])) =
    Some (neg, 0, word_of_int (10 * digit_val a + digit_val b))"
  using string_to_dollars_digits [of "[]" a b neg] assms by simp

text \<open>Claim C19. Each parser reads only the token and its terminating NUL: whatever an
  earlier, longer token left in the buffer after the NUL never changes the result
  (\<open>StringToDollars\<close> scans up to 100 bytes for the dot, past the NUL, and still fails
  on the NUL before it could reach stale bytes).\<close>

theorem parsers_ignore_stale_bytes:
  assumes "nul \<notin> set tok" "length tok < 100"
  shows "string_to_nums (tok @ nul # g) = string_to_nums (cstr tok)
    \<and> string_to_number (tok @ nul # g) = string_to_number (cstr tok)
    \<and> string_to_dollars (tok @ nul # g) = string_to_dollars (cstr tok)"
  by (simp add: string_to_nums_stale [OF assms(1)] string_to_number_stale [OF assms(1)]
      string_to_dollars_stale [OF assms])

section \<open>Witnesses\<close>

lemma parsers_ignore_stale_bytes_witness:
  "nul \<notin> set ''-35.00'' \<and> length ''-35.00'' < 100
   \<and> string_to_dollars (''-35.00'' @ nul # ''9.99'') = Some (True, 35, 0)"
  using parsers_ignore_stale_bytes [of "''-35.00''" "''9.99''"] by (simp add: parse_eval)

lemma string_to_nums_format_roundtrip_witness:
  "string_to_nums (cstr (format_date 9 19 2002 @ ''x'')) = Some \<lparr>month = 9, day = 19, year = 2002\<rparr>
   \<and> format_date 9 19 2002 = ''09.19.2002''"
proof -
  have f: "format_date 9 19 2002 = ''09.19.2002''" by (simp add: format_date_def digit_char_def)
  show ?thesis
    using string_to_nums_format_roundtrip [of 9 19 2002 "''x''"] by (simp add: f)
qed

lemma string_to_nums_format_inverse_witness:
  "string_to_nums (cstr ''09.19.2002'') = Some \<lparr>month = 9, day = 19, year = 2002\<rparr>
   \<and> format_date 9 19 2002 = ''09.19.2002''"
proof -
  have p: "string_to_nums (cstr ''09.19.2002'') = Some \<lparr>month = 9, day = 19, year = 2002\<rparr>"
    by (simp add: parse_eval)
  have f: "format_date 9 19 2002 = ''09.19.2002''" by (simp add: format_date_def digit_char_def)
  show ?thesis
    using string_to_nums_format_inverse [OF p] p f by simp
qed

lemma string_to_dollars_format_roundtrip_witness:
  "format_amount False 40000 0 = ''40000.00''
   \<and> string_to_dollars (cstr ''40000.00'') = Some (False, 40000, 0)"
proof -
  have d: "dec_string 40000 = ''40000''" by (simp add: dec_string.simps digit_char_def)
  then have f: "format_amount False 40000 0 = ''40000.00''" by (simp add: format_amount_def digit_char_def)
  show ?thesis
    using string_to_dollars_format_roundtrip [of 0 40000 False] f d by simp
qed

lemma string_to_dollars_accepts_cents_form_witness:
  "string_to_dollars (cstr ''-35.00'') = Some (True, 35, 0) \<and> length ''-35.00'' = 3 + 3"
  using string_to_dollars_accepts_cents_form [of "''-35.00''" True 35 0] by (simp add: parse_eval)

lemma string_to_dollars_empty_dollars_witness:
  "string_to_dollars (cstr ''.50'') = Some (False, 0, 50)"
  using string_to_dollars_empty_dollars [of "CHR ''5''" "CHR ''0''" False]
  by (simp add: is_digit_char_def digit_val_def)


end
