(* ===== verification/Loader.thy ===== *)
theory Loader
  imports Parse Scheduler
begin

text \<open>
  \<open>GetBills\<close> (BillIntervals.cpp lines 289-559) over the file's whitespace-separated
  tokens: the Begin and End dates, then records of six tokens (a separator, the type
  tag, a third token that only \<open>Interval\<close> reads, the start date, the amount and the
  description). Each record is parsed into a new node put at the head of its list.
  A failed parse, a repeating transaction starting before Begin, or an unknown tag
  abandons the whole load (the C function returns -1; here an error value); fewer than
  six tokens left end the loop normally. The error values carry the token or
  description the C diagnostics print.
\<close>

section \<open>Errors and record loading\<close>

text \<open>The error values: \<open>Missing_dates\<close> stands for a file with fewer than two tokens
  (the C code then parses an uninitialised buffer, whose outcome the model does not
  fix); the others carry the token or description the diagnostic prints.\<close>

datatype load_error =
    Missing_dates
  | Bad_begin_date string
  | Bad_end_date string
  | Bad_date string
  | Bad_number string
  | Bad_amount string
  | Starts_before_begin string
  | Unknown_type string

text \<open>\<open>(Year < BeginY) || (Year == BeginY && Month < BeginM) || (Year == BeginY &&
  Month == BeginM && Day < BeginD)\<close>, on \<open>short\<close>s.\<close>

definition before_begin :: "date \<Rightarrow> date \<Rightarrow> bool" where
  "before_begin dt b \<longleftrightarrow>
     sint (year dt) < sint (year b)
     \<or> (year dt = year b \<and> month dt < month b)
     \<or> (year dt = year b \<and> month dt = month b \<and> day dt < day b)"

definition load_once :: "registry \<Rightarrow> string \<Rightarrow> string \<Rightarrow> string \<Rightarrow> load_error + registry" where
  "load_once reg t3 t4 t5 =
     (case string_to_nums (cstr t3) of
        None \<Rightarrow> Inl (Bad_date t3)
      | Some dt \<Rightarrow>
          (case string_to_dollars (cstr t4) of
             None \<Rightarrow> Inl (Bad_amount t4)
           | Some (neg, dol, cts) \<Rightarrow>
               Inr (reg\<lparr>onces := \<lparr>o_start = dt, o_amount = amount_cents neg dol cts,
                                    o_descr = t5\<rparr> # onces reg\<rparr>)))"

definition load_interval ::
  "date \<Rightarrow> registry \<Rightarrow> string \<Rightarrow> string \<Rightarrow> string \<Rightarrow> string \<Rightarrow> load_error + registry" where
  "load_interval b reg t2 t3 t4 t5 =
     (case string_to_number (cstr t2) of
        None \<Rightarrow> Inl (Bad_number t2)
      | Some k \<Rightarrow>
          (case string_to_nums (cstr t3) of
             None \<Rightarrow> Inl (Bad_date t3)
           | Some dt \<Rightarrow>
               (case string_to_dollars (cstr t4) of
                  None \<Rightarrow> Inl (Bad_amount t4)
                | Some (neg, dol, cts) \<Rightarrow>
                    if before_begin dt b then Inl (Starts_before_begin t5)
                    else Inr (reg\<lparr>intervals := \<lparr>i_start = dt, i_interval = k, i_started = False,
                        i_counter = 0, i_amount = amount_cents neg dol cts, i_descr = t5\<rparr>
                        # intervals reg\<rparr>))))"

definition load_monthly :: "date \<Rightarrow> registry \<Rightarrow> string \<Rightarrow> string \<Rightarrow> string \<Rightarrow> load_error + registry" where
  "load_monthly b reg t3 t4 t5 =
     (case string_to_nums (cstr t3) of
        None \<Rightarrow> Inl (Bad_date t3)
      | Some dt \<Rightarrow>
          (case string_to_dollars (cstr t4) of
             None \<Rightarrow> Inl (Bad_amount t4)
           | Some (neg, dol, cts) \<Rightarrow>
               if before_begin dt b then Inl (Starts_before_begin t5)
               else Inr (reg\<lparr>monthlies := \<lparr>m_start = dt, m_started = False,
                   m_amount = amount_cents neg dol cts, m_descr = t5\<rparr> # monthlies reg\<rparr>)))"

definition load_bimonthly :: "date \<Rightarrow> registry \<Rightarrow> string \<Rightarrow> string \<Rightarrow> string \<Rightarrow> load_error + registry" where
  "load_bimonthly b reg t3 t4 t5 =
     (case string_to_nums (cstr t3) of
        None \<Rightarrow> Inl (Bad_date t3)
      | Some dt \<Rightarrow>
          (case string_to_dollars (cstr t4) of
             None \<Rightarrow> Inl (Bad_amount t4)
           | Some (neg, dol, cts) \<Rightarrow>
               if before_begin dt b then Inl (Starts_before_begin t5)
               else Inr (reg\<lparr>bimonthlies := \<lparr>b_start = dt, b_started = False,
                   b_amount = amount_cents neg dol cts, b_descr = t5\<rparr> # bimonthlies reg\<rparr>)))"

definition load_record ::
  "date \<Rightarrow> registry \<Rightarrow> string \<Rightarrow> string \<Rightarrow> string \<Rightarrow> string \<Rightarrow> string \<Rightarrow> load_error + registry" where
  "load_record b reg t1 t2 t3 t4 t5 =
     (if t1 = ''Once'' then load_once reg t3 t4 t5
      else if t1 = ''Interval'' then load_interval b reg t2 t3 t4 t5
      else if t1 = ''Monthly'' then load_monthly b reg t3 t4 t5
      else if t1 = ''Bimonthly'' then load_bimonthly b reg t3 t4 t5
      else Inl (Unknown_type t1))"

fun read_records :: "date \<Rightarrow> registry \<Rightarrow> string list \<Rightarrow> load_error + registry" where
  "read_records b reg (t0 # t1 # t2 # t3 # t4 # t5 # rest) =
     (case load_record b reg t1 t2 t3 t4 t5 of
        Inl err \<Rightarrow> Inl err
      | Inr reg' \<Rightarrow> read_records b reg' rest)"
| "read_records b reg toks = Inr reg"

definition empty_registry :: registry where
  "empty_registry = \<lparr>onces = [], intervals = [], monthlies = [], bimonthlies = []\<rparr>"

definition get_bills :: "string list \<Rightarrow> load_error + (date \<times> date \<times> registry)" where
  "get_bills toks =
     (case toks of
        t0 # t1 # rest \<Rightarrow>
          (case string_to_nums (cstr t0) of
             None \<Rightarrow> Inl (Bad_begin_date t0)
           | Some b \<Rightarrow>
               (case string_to_nums (cstr t1) of
                  None \<Rightarrow> Inl (Bad_end_date t1)
                | Some e \<Rightarrow>
                    (case read_records b empty_registry rest of
                       Inl err \<Rightarrow> Inl err
                     | Inr reg \<Rightarrow> Inr (b, e, reg))))
      | _ \<Rightarrow> Inl Missing_dates)"

text \<open>What the loader guarantees of every node it creates: a repeating transaction
  starts on or after Begin and is dormant, an interval one with its \<open>Counter\<close> at 0.\<close>

definition loaded_ok :: "date \<Rightarrow> registry \<Rightarrow> bool" where
  "loaded_ok b r \<longleftrightarrow>
     list_all (\<lambda>l. \<not> before_begin (i_start l) b \<and> \<not> i_started l \<and> i_counter l = 0) (intervals r)
     \<and> list_all (\<lambda>l. \<not> before_begin (m_start l) b \<and> \<not> m_started l) (monthlies r)
     \<and> list_all (\<lambda>l. \<not> before_begin (b_start l) b \<and> \<not> b_started l) (bimonthlies r)"

section \<open>Lemmas\<close>

lemmas load_defs = load_record_def load_once_def load_interval_def load_monthly_def load_bimonthly_def

lemma load_record_loaded_ok:
  assumes "load_record b reg t1 t2 t3 t4 t5 = Inr reg'" "loaded_ok b reg"
  shows "loaded_ok b reg'"
  using assms
  by (auto simp: load_defs loaded_ok_def split: if_splits option.splits prod.splits)

lemma read_records_loaded_ok:
  "read_records b reg toks = Inr reg' \<Longrightarrow> loaded_ok b reg \<Longrightarrow> loaded_ok b reg'"
proof (induction b reg toks rule: read_records.induct)
  case (1 b reg t0 t1 t2 t3 t4 t5 rest)
  then obtain r where r: "load_record b reg t1 t2 t3 t4 t5 = Inr r" "read_records b r rest = Inr reg'"
    by (auto split: sum.splits)
  then show ?case
    using "1.IH" [OF r(1)] load_record_loaded_ok [OF r(1) "1.prems"(2)] by simp
qed simp_all

lemma get_bills_loaded_ok_inv:
  assumes "get_bills toks = Inr (b, e, reg)"
  shows "loaded_ok b reg"
proof -
  obtain rest where rr: "read_records b empty_registry rest = Inr reg"
    using assms by (auto simp: get_bills_def split: list.splits option.splits sum.splits)
  show ?thesis
    by (rule read_records_loaded_ok [OF rr]) (simp add: loaded_ok_def empty_registry_def)
qed

section \<open>Loader properties\<close>

text \<open>Claim C29. Loading is all or nothing: the records of a file are loaded one after the
  other, and an error in any record is the result of the whole load, whatever follows it;
  a prefix of whole records that loads is continued from the registry it built.\<close>

theorem read_records_append:
  assumes "length xs mod 6 = 0"
  shows "read_records b reg (xs @ ys) =
    (case read_records b reg xs of Inl err \<Rightarrow> Inl err | Inr reg' \<Rightarrow> read_records b reg' ys)"
  using assms
proof (induction b reg xs rule: read_records.induct)
  case (1 b reg t0 t1 t2 t3 t4 t5 rest)
  then show ?case by (simp split: sum.split)
qed simp_all

text \<open>Claim C27. A repeating transaction (Interval, Monthly or Bimonthly) whose fields
  parse but whose start date comes before Begin aborts the whole load with the error
  naming its description, whatever records follow.\<close>

theorem load_rejects_repeating_before_begin:
  assumes "t1 = ''Monthly'' \<or> t1 = ''Bimonthly'' \<or> (t1 = ''Interval'' \<and> string_to_number (cstr t2) \<noteq> None)"
    "string_to_nums (cstr t3) = Some dt" "string_to_dollars (cstr t4) \<noteq> None" "before_begin dt b"
  shows "read_records b reg (t0 # t1 # t2 # t3 # t4 # t5 # rest) = Inl (Starts_before_begin t5)"
  using assms by (auto simp: load_defs split: option.splits)

text \<open>Claim C28. A one-time transaction dated before Begin is loaded like any other (the
  specification's start-date check covers only the repeating types); it can never fire,
  since the day loop starts at Begin.\<close>

theorem load_once_before_begin_accepted:
  assumes "string_to_nums (cstr t3) = Some dt" "string_to_dollars (cstr t4) = Some (ng, dol, cts)"
  shows "read_records b reg (t0 # ''Once'' # t2 # t3 # t4 # t5 # rest) =
    read_records b (reg\<lparr>onces := \<lparr>o_start = dt, o_amount = amount_cents ng dol cts, o_descr = t5\<rparr>
      # onces reg\<rparr>) rest"
  using assms by (simp add: load_defs)

text \<open>Claim C31. A malformed start date aborts the whole load with the error naming the
  token, for every record type (an Interval record first needs its day count to parse).\<close>

theorem load_aborts_on_bad_date:
  assumes "t1 = ''Once'' \<or> t1 = ''Monthly'' \<or> t1 = ''Bimonthly''
      \<or> (t1 = ''Interval'' \<and> string_to_number (cstr t2) \<noteq> None)"
    "string_to_nums (cstr t3) = None"
  shows "read_records b reg (t0 # t1 # t2 # t3 # t4 # t5 # rest) = Inl (Bad_date t3)"
  using assms by (auto simp: load_defs split: option.splits)

text \<open>Claim C30. Every registry a successful load returns satisfies the loader's
  invariant: each repeating transaction starts on or after Begin and is dormant, each
  interval transaction's counter is 0.\<close>

theorem get_bills_loaded_ok:
  assumes "get_bills toks = Inr (b, e, reg)"
  shows "loaded_ok b reg"
  using assms by (rule get_bills_loaded_ok_inv)

section \<open>Witnesses\<close>

lemma read_records_append_witness:
  "length ['','', ''Frob'', ''x'', ''01.01.2020'', ''1.00'', ''A''] mod 6 = 0
   \<and> read_records \<lparr>month = 1, day = 1, year = 2020\<rparr> empty_registry
       (['','', ''Frob'', ''x'', ''01.01.2020'', ''1.00'', ''A''] @ ['','', ''Once'', ''x'', ''01.02.2020'', ''2.00'', ''B''])
     = Inl (Unknown_type ''Frob'')"
  using read_records_append [of "['','', ''Frob'', ''x'', ''01.01.2020'', ''1.00'', ''A'']"
      "\<lparr>month = 1, day = 1, year = 2020\<rparr>" empty_registry
      "['','', ''Once'', ''x'', ''01.02.2020'', ''2.00'', ''B'']"]
  by (simp add: load_defs)

lemma load_rejects_repeating_before_begin_witness:
  "string_to_nums (cstr ''01.15.2019'') = Some \<lparr>month = 1, day = 15, year = 2019\<rparr>
   \<and> string_to_dollars (cstr ''-35.00'') \<noteq> None
   \<and> before_begin \<lparr>month = 1, day = 15, year = 2019\<rparr> \<lparr>month = 1, day = 1, year = 2020\<rparr>
   \<and> read_records \<lparr>month = 1, day = 1, year = 2020\<rparr> empty_registry
       ['','', ''Monthly'', ''x'', ''01.15.2019'', ''-35.00'', ''FastLane'']
     = Inl (Starts_before_begin ''FastLane'')"
proof -
  have h: "string_to_nums (cstr ''01.15.2019'') = Some \<lparr>month = 1, day = 15, year = 2019\<rparr>"
    "string_to_dollars (cstr ''-35.00'') \<noteq> None"
    "before_begin \<lparr>month = 1, day = 15, year = 2019\<rparr> \<lparr>month = 1, day = 1, year = 2020\<rparr>"
    by (simp_all add: parse_eval before_begin_def)
  show ?thesis
    using load_rejects_repeating_before_begin [of "''Monthly''" "''x''" "''01.15.2019''"
        "\<lparr>month = 1, day = 15, year = 2019\<rparr>" "''-35.00''" "\<lparr>month = 1, day = 1, year = 2020\<rparr>"
        empty_registry "'',''" "''FastLane''" "[]"] h
    by simp
qed

lemma load_once_before_begin_accepted_witness:
  "string_to_nums (cstr ''12.31.2019'') = Some \<lparr>month = 12, day = 31, year = 2019\<rparr>
   \<and> string_to_dollars (cstr ''5.00'') = Some (False, 5, 0)
   \<and> read_records \<lparr>month = 1, day = 1, year = 2020\<rparr> empty_registry
       ['','', ''Once'', ''x'', ''12.31.2019'', ''5.00'', ''Early'']
     = Inr (empty_registry\<lparr>onces := [\<lparr>o_start = \<lparr>month = 12, day = 31, year = 2019\<rparr>,
         o_amount = 500, o_descr = ''Early''\<rparr>]\<rparr>)"
proof -
  have h: "string_to_nums (cstr ''12.31.2019'') = Some \<lparr>month = 12, day = 31, year = 2019\<rparr>"
    "string_to_dollars (cstr ''5.00'') = Some (False, 5, 0)"
    by (simp_all add: parse_eval)
  show ?thesis
    using load_once_before_begin_accepted [OF h, of "\<lparr>month = 1, day = 1, year = 2020\<rparr>"
        empty_registry "'',''" "''x''" "''Early''" "[]"] h
    by (simp add: amount_cents_def empty_registry_def)
qed

lemma load_aborts_on_bad_date_witness:
  "string_to_nums (cstr ''13.99.abcd'') = None
   \<and> read_records \<lparr>month = 1, day = 1, year = 2020\<rparr> empty_registry
       ['','', ''Once'', ''x'', ''13.99.abcd'', ''10.00'', ''Pay'']
     = Inl (Bad_date ''13.99.abcd'')"
proof -
  have h: "string_to_nums (cstr ''13.99.abcd'') = None"
    by (simp add: parse_eval)
  show ?thesis
    using load_aborts_on_bad_date [of "''Once''" "''x''" "''13.99.abcd''"
        "\<lparr>month = 1, day = 1, year = 2020\<rparr>" empty_registry "'',''" "''10.00''" "''Pay''" "[]"] h
    by simp
qed

text \<open>The sample list of the program's comments: a one-time balance, a monthly toll and
  an interval service.\<close>

lemma get_bills_sample:
  "get_bills [''09.19.2002'', ''01.01.2004'', '','', ''Once'', ''x'', ''09.23.2002'', ''1637.29'', ''CurrentBalance'',
   '','', ''Monthly'', ''x'', ''09.25.2002'', ''-35.00'', ''FastLane'',
   '','', ''Interval'', ''180'', ''10.01.2002'', ''-80.00'', ''CarServiceB''] =
  Inr (\<lparr>month = 9, day = 19, year = 2002\<rparr>, \<lparr>month = 1, day = 1, year = 2004\<rparr>,
   \<lparr>onces = [\<lparr>o_start = \<lparr>month = 9, day = 23, year = 2002\<rparr>, o_amount = 163729, o_descr = ''CurrentBalance''\<rparr>],
    intervals = [\<lparr>i_start = \<lparr>month = 10, day = 1, year = 2002\<rparr>, i_interval = 180, i_started = False,
      i_counter = 0, i_amount = -8000, i_descr = ''CarServiceB''\<rparr>],
    monthlies = [\<lparr>m_start = \<lparr>month = 9, day = 25, year = 2002\<rparr>, m_started = False, m_amount = -3500,
      m_descr = ''FastLane''\<rparr>], bimonthlies = []\<rparr>)"
  by (simp add: get_bills_def load_defs parse_eval before_begin_def empty_registry_def)

lemma get_bills_loaded_ok_witness:
  "loaded_ok \<lparr>month = 9, day = 19, year = 2002\<rparr>
   \<lparr>onces = [\<lparr>o_start = \<lparr>month = 9, day = 23, year = 2002\<rparr>, o_amount = 163729, o_descr = ''CurrentBalance''\<rparr>],
    intervals = [\<lparr>i_start = \<lparr>month = 10, day = 1, year = 2002\<rparr>, i_interval = 180, i_started = False,
      i_counter = 0, i_amount = -8000, i_descr = ''CarServiceB''\<rparr>],
    monthlies = [\<lparr>m_start = \<lparr>month = 9, day = 25, year = 2002\<rparr>, m_started = False, m_amount = -3500,
      m_descr = ''FastLane''\<rparr>], bimonthlies = []\<rparr>"
  by (rule get_bills_loaded_ok [OF get_bills_sample])

end
