(* ===== verification/Ledger.thy ===== *)
theory Ledger
  imports Scheduler Parse
begin

text \<open>
  The text of the ledger file \<open>Bills.csv\<close>. Each firing writes
  \<open>BillsOut << Balance << ","\<close> and then \<open>PrintTransaction\<close> (lines 602-607):
  \<open>Amount << "," << Month << "-" << Day << "-" << Year << "," << Description << endl\<close>.
  The shorts are written as signed decimals (\<open>show_int\<close>, \<open>show_short\<close>). The
  doubles are written by \<open>operator<<(double)\<close> in the stream's default format, which
  is \<open>printf\<close>'s \<open>%g\<close> with precision 6: the value rounded to six significant
  digits, in fixed notation when its decimal exponent is in -4..5 and in
  \<open>d.ddddde+XX\<close> notation otherwise, trailing zeros of the fraction and a trailing
  point removed. \<open>g6\<close> renders an amount given in exact cents that way. The double the
  program holds differs from the exact cents value by far less than half a unit of the
  sixth digit, so the rendering is the same, except when the exact value lies exactly
  half-way between two six-digit values (a balance like 12345.65): the program then
  rounds according to the binary error, which the model does not track, and \<open>g6\<close>
  rounds half to even. An amount token \<open>-0.00\<close> gives the double -0.0, which the
  stream writes as \<open>-0\<close>; amounts here are integers of cents and that sign is not
  kept. \<open>fixed_cents\<close>, \<open>read_cents\<close> and \<open>split_fields\<close> are the reader's
  side (exact decimal text, reading it back, splitting a CSV line) and are not part of the
  program.
\<close>

section \<open>Integers\<close>

definition show_int :: "int \<Rightarrow> string" where
  "show_int i = (if i < 0 then ''-'' @ dec_string (nat (- i)) else dec_string (nat i))"

definition show_short :: "short \<Rightarrow> string" where
  "show_short y = show_int (sint y)"

section \<open>Doubles in the default stream format\<close>

text \<open>Trailing zeros of a decimal mantissa moved into its exponent:
  \<open>r * 10 ^ e\<close> is kept.\<close>

function strip_zeros :: "nat \<Rightarrow> int \<Rightarrow> nat \<times> int" where
  "strip_zeros r e = (if r \<noteq> 0 \<and> r mod 10 = 0 then strip_zeros (r div 10) (e + 1) else (r, e))"
  by pat_completeness auto
termination
  by (relation "measure fst") auto

definition pad_zeros :: "nat \<Rightarrow> string \<Rightarrow> string" where
  "pad_zeros n s = replicate (n - length s) CHR ''0'' @ s"

text \<open>Rounding a positive amount of cents to six significant digits: the result
  \<open>(r, e)\<close> stands for \<open>r * 10 ^ e\<close> dollars.\<close>

definition round_sig6 :: "nat \<Rightarrow> nat \<times> int" where
  "round_sig6 a =
     (let k = length (dec_string a) in
      if k \<le> 6 then (a, -2)
      else
        (let p = 10 ^ (k - 6); q = a div p; m = a mod p;
             r = (if 2 * m < p then q else if p < 2 * m then q + 1 else if even q then q else q + 1)
         in if r = 10 ^ 6 then (10 ^ 5, int (k - 6) - 1) else (r, int (k - 6) - 2)))"

definition g6_mag :: "nat \<Rightarrow> string" where
  "g6_mag a =
     (let (r, e) = case_prod strip_zeros (round_sig6 a);
          ds = dec_string r;
          x = int (length ds) - 1 + e
      in if -4 \<le> x \<and> x < 6 then
           (if 0 \<le> e then ds @ replicate (nat e) CHR ''0''
            else dec_string (r div 10 ^ nat (- e)) @ CHR ''.'' #
                   pad_zeros (nat (- e)) (dec_string (r mod 10 ^ nat (- e))))
         else
           hd ds # (if tl ds = [] then [] else CHR ''.'' # tl ds) @ CHR ''e'' #
             (if x < 0 then CHR ''-'' else CHR ''+'') # pad_zeros 2 (dec_string (nat \<bar>x\<bar>)))"

definition g6 :: "int \<Rightarrow> string" where
  "g6 v = (if v = 0 then ''0'' else (if v < 0 then ''-'' else []) @ g6_mag (nat \<bar>v\<bar>))"

section \<open>Ledger lines\<close>

definition ledger_line :: "entry \<Rightarrow> string" where
  "ledger_line x =
     g6 (e_balance x) @ CHR '','' # g6 (e_amount x) @ CHR '','' #
     show_int (month (e_date x)) @ CHR ''-'' # show_int (day (e_date x)) @ CHR ''-'' #
     show_short (year (e_date x)) @ CHR '','' # e_descr x @ [CHR 0x0A]"

definition ledger_text :: "entry list \<Rightarrow> string" where
  "ledger_text xs = concat (map ledger_line xs)"




text \<open>The fields of a line of a comma-separated file, as a CSV reader splits it.\<close>

fun split_fields :: "string \<Rightarrow> string list" where
  "split_fields [] = [[]]"
| "split_fields (c # cs) =
     (if c = CHR '','' then [] # split_fields cs
      else (case split_fields cs of [] \<Rightarrow> [[c]] | f # fs \<Rightarrow> (c # f) # fs))"

declare strip_zeros.simps [simp del]

lemma dec_string_eval:
  "dec_string 0 = ''0''" "dec_string (Suc 0) = ''1''"
  "dec_string (numeral n) = (if numeral n < (10::nat) then [digit_char (numeral n)]
     else dec_string (numeral n div 10) @ [digit_char (numeral n mod 10)])"
  by (simp_all add: dec_string.simps [of 0] dec_string.simps [of "Suc 0"] dec_string.simps [of "numeral n"]
      digit_char_def)

lemma strip_zeros_eval:
  "strip_zeros 0 e = (0, e)" "strip_zeros (Suc 0) e = (Suc 0, e)"
  "strip_zeros (numeral n) e = (if numeral n mod (10::nat) = 0 then strip_zeros (numeral n div 10) (e + 1)
     else (numeral n, e))"
  by (simp_all add: strip_zeros.simps [of 0] strip_zeros.simps [of "Suc 0"] strip_zeros.simps [of "numeral n"])

lemmas g6_eval = g6_def g6_mag_def round_sig6_def dec_string_eval strip_zeros_eval digit_char_def pad_zeros_def

lemma dec_string_not_Nil: "dec_string n \<noteq> []"
  by (simp add: dec_string.simps [of n])












lemma split_fields_no_comma: "CHR '','' \<notin> set a \<Longrightarrow> split_fields a = [a]"
  by (induction a) auto

lemma split_fields_comma:
  "CHR '','' \<notin> set a \<Longrightarrow> split_fields (a @ CHR '','' # b) = a # split_fields b"
proof (induction a)
  case (Cons c a)
  then show ?case by (cases "split_fields (a @ CHR '','' # b)") auto
qed simp

lemma length_split_fields: "length (split_fields s) = Suc (count_list s (CHR '',''))"
proof (induction s)
  case (Cons c s)
  then show ?case by (cases "split_fields s") auto
qed simp

lemma dec_string_no_comma: "CHR '','' \<notin> set (dec_string n)"
  using dec_string_is_digit [of "CHR '',''" n] by (auto simp: is_digit_char_def)

lemma pad_zeros_no_comma: "CHR '','' \<notin> set (pad_zeros k (dec_string n))"
  using dec_string_no_comma by (simp add: pad_zeros_def)

lemma g6_no_comma: "CHR '','' \<notin> set (g6 v)"
proof -
  have "CHR '','' \<notin> set (g6_mag a)" for a
  proof -
    obtain r e where re: "case_prod strip_zeros (round_sig6 a) = (r, e)" by fastforce
    have hd: "hd (dec_string r) \<noteq> CHR '',''" using dec_string_no_comma [of r] dec_string_not_Nil [of r]
      by (metis list.set_sel(1))
    have tl: "CHR '','' \<notin> set (tl (dec_string r))" using dec_string_no_comma [of r]
      by (metis list.set_sel(2) tl_Nil)
    show ?thesis
      using hd tl by (simp add: g6_mag_def re Let_def dec_string_no_comma pad_zeros_no_comma)
  qed
  then show ?thesis by (simp add: g6_def)
qed

lemma show_int_no_comma: "CHR '','' \<notin> set (show_int i)"
  by (simp add: show_int_def dec_string_no_comma)

section \<open>Properties of the ledger text\<close>

text \<open>Claim C37. A ledger line is a well-formed comma-separated record when the
  description has no comma: exactly the four fields balance, amount, \<open>M-D-Y\<close> date
  and description (with the line's newline), in that order.\<close>

theorem ledger_line_fields:
  assumes "CHR '','' \<notin> set (e_descr x)"
  shows "split_fields (ledger_line x) =
    [g6 (e_balance x), g6 (e_amount x),
     show_int (month (e_date x)) @ CHR ''-'' # show_int (day (e_date x)) @ CHR ''-'' # show_short (year (e_date x)),
     e_descr x @ [CHR 0x0A]]"
proof -
  have nc: "CHR '','' \<notin> set (e_descr x @ [CHR 0x0A])" using assms by simp
  have dt: "CHR '','' \<notin> set (show_int (month (e_date x)) @ CHR ''-'' # show_int (day (e_date x)) @ CHR ''-''
      # show_short (year (e_date x)))"
    by (simp add: show_int_no_comma show_short_def)
  show ?thesis
    unfolding ledger_line_def
    using split_fields_comma [OF g6_no_comma] split_fields_comma [OF dt] split_fields_no_comma [OF nc]
    by simp
qed


text \<open>Claim C39. The number of comma-separated fields of a ledger line is four plus the
  number of commas in the description: a description with a comma (the loader accepts
  any token without whitespace) breaks the four-column layout the specification gives.\<close>

theorem ledger_line_field_count:
  "length (split_fields (ledger_line x)) = 4 + count_list (e_descr x) (CHR '','')"
proof -
  have "count_list (g6 v) (CHR '','') = 0" for v using g6_no_comma by (simp add: count_list_0_iff)
  moreover have "count_list (show_int i) (CHR '','') = 0" for i using show_int_no_comma by (simp add: count_list_0_iff)
  ultimately show ?thesis
    by (simp add: length_split_fields ledger_line_def show_short_def)
qed

section \<open>Witnesses\<close>

text \<open>The stream format on sample values: exact below 10000.00, six significant digits
  above, exponent notation from 1000000 on (99999999 cents round up to 1e+06).\<close>

lemma g6_samples:
  "g6 1000 = ''10'' \<and> g6 163729 = ''1637.29'' \<and> g6 (-5) = ''-0.05'' \<and> g6 1234567 = ''12345.7''
  \<and> g6 123456789 = ''1.23457e+06'' \<and> g6 99999999 = ''1e+06'' \<and> g6 (-3500) = ''-35'' \<and> g6 150 = ''1.5''"
  by (simp add: g6_eval)

lemma ledger_line_fields_witness:
  "CHR '','' \<notin> set ''CurrentBalance''
   \<and> split_fields (ledger_line \<lparr>e_balance = 163729, e_amount = 163729,
       e_date = \<lparr>month = 9, day = 23, year = 2002\<rparr>, e_descr = ''CurrentBalance''\<rparr>)
     = [''1637.29'', ''1637.29'', ''9-23-2002'', ''CurrentBalance'' @ [CHR 0x0A]]"
  using ledger_line_fields [of "\<lparr>e_balance = 163729, e_amount = 163729,
       e_date = \<lparr>month = 9, day = 23, year = 2002\<rparr>, e_descr = ''CurrentBalance''\<rparr>"]
  by (simp add: g6_eval show_int_def show_short_def)


end
